theory Spec2Isabelle
  imports Main "HOL-Library.Word"
begin

unbundle bit_operations_syntax

section \<open>Bytes, errors and the byte reader\<close>

type_synonym byte = "8 word"

text \<open>
  Every error value and every panic the modelled functions can produce.
  \<open>EOF\<close> and \<open>ErrUnexpectedEOF\<close> are the standard library's \<open>io.EOF\<close> and
  \<open>io.ErrUnexpectedEOF\<close>; \<open>ErrRange\<close> and \<open>ErrEof\<close> are the two error
  variables of package serialization, which are different values from \<open>io.EOF\<close>.
\<close>

datatype error =
    ErrRange
  | ErrEof
  | EOF
  | ErrUnexpectedEOF
  | UnmatchedMagic "32 word"
  | UnmatchedChecksum
  | UnexpectedLengthOfCMD
  | PanicSliceBounds
  | PanicMakeSliceLen
  | DupHashCrash
  | LeftChildIsNil
  | NoTransactions
  | NoFlagBits
  | ComputedRootMismatch "byte list" "byte list"
  | RanOutOfHashes "32 word"
  | RanOutOfFlagBits
  | InvalidTxidNode
  | PanicIndexOutOfRange

text \<open>
  The readers the repository hands to its decoders are \<open>bytes.NewReader(body)\<close>
  (OutPointFromBytes, DataReq.Deserialize, MerkleBlock.Deserialize). Such a reader is
  its list of unread bytes. \<open>Read r len\<close> is \<open>reader.Read(p)\<close> on a fresh zeroed
  buffer \<open>p\<close> of \<open>len\<close> bytes: at the end of the input it returns \<open>(0, io.EOF)\<close>
  (also for an empty \<open>p\<close>); otherwise it copies as many bytes as are there, at most
  \<open>len\<close>, and returns their number with a nil error. The result is the buffer after
  the call, the count, the error and the reader after the call.
\<close>

type_synonym reader = "byte list"

definition Read :: "reader \<Rightarrow> nat \<Rightarrow> byte list \<times> nat \<times> error option \<times> reader" where
  "Read r len =
     (if r = [] then (replicate len 0, 0, Some EOF, r)
      else (take len r @ replicate (len - length r) 0, min len (length r), None, drop len r))"

text \<open>
  \<open>io.ReadFull\<close> over such a reader, as \<open>binary.Read\<close> uses it: all \<open>len\<close>
  bytes or an error, \<open>io.EOF\<close> when nothing was read and \<open>io.ErrUnexpectedEOF\<close>
  when the input ended part of the way.
\<close>

definition ReadFull :: "reader \<Rightarrow> nat \<Rightarrow> error + (byte list \<times> reader)" where
  "ReadFull r len =
     (if len \<le> length r then Inr (take len r, drop len r)
      else if r = [] then Inl EOF
      else Inl ErrUnexpectedEOF)"

section \<open>encoding/binary, little endian\<close>

definition PutUint16 :: "16 word \<Rightarrow> byte list" where
  "PutUint16 v = [ucast v, ucast (drop_bit 8 v)]"

definition PutUint32 :: "32 word \<Rightarrow> byte list" where
  "PutUint32 v = [ucast v, ucast (drop_bit 8 v), ucast (drop_bit 16 v), ucast (drop_bit 24 v)]"

definition PutUint64 :: "64 word \<Rightarrow> byte list" where
  "PutUint64 v =
     [ucast v, ucast (drop_bit 8 v), ucast (drop_bit 16 v), ucast (drop_bit 24 v),
      ucast (drop_bit 32 v), ucast (drop_bit 40 v), ucast (drop_bit 48 v),
      ucast (drop_bit 56 v)]"

text \<open>
  The decoders index their argument; every caller below passes a buffer of exactly the
  width decoded (\<open>Read\<close> and \<open>ReadFull\<close> return buffers of the length asked for).
\<close>

definition Uint16 :: "byte list \<Rightarrow> 16 word" where
  "Uint16 b = ucast (b ! 0) OR push_bit 8 (ucast (b ! 1))"

definition Uint32 :: "byte list \<Rightarrow> 32 word" where
  "Uint32 b =
     ucast (b ! 0) OR push_bit 8 (ucast (b ! 1)) OR push_bit 16 (ucast (b ! 2))
       OR push_bit 24 (ucast (b ! 3))"

definition Uint64 :: "byte list \<Rightarrow> 64 word" where
  "Uint64 b =
     ucast (b ! 0) OR push_bit 8 (ucast (b ! 1)) OR push_bit 16 (ucast (b ! 2))
       OR push_bit 24 (ucast (b ! 3)) OR push_bit 32 (ucast (b ! 4))
       OR push_bit 40 (ucast (b ! 5)) OR push_bit 48 (ucast (b ! 6))
       OR push_bit 56 (ucast (b ! 7))"

section \<open>Package serialization\<close>

text \<open>
  A writer is the \<open>bytes.Buffer\<close> the callers create: the bytes written so far. Its
  \<open>Write\<close> appends and never fails, so a write function returns the new contents.
\<close>

definition MaxUint64 :: "64 word" where
  "MaxUint64 = 0xFFFFFFFFFFFFFFFF"

definition WriteVarUint :: "byte list \<Rightarrow> 64 word \<Rightarrow> byte list" where
  "WriteVarUint writer v =
     (if v < 0xFD then writer @ [ucast v]
      else if v \<le> 0xFFFF then writer @ 0xFD # PutUint16 (ucast v)
      else if v \<le> 0xFFFFFFFF then writer @ 0xFE # PutUint32 (ucast v)
      else writer @ 0xFF # PutUint64 v)"

text \<open>
  ReadVarUint looks only at the error of each \<open>Read\<close>, never at the count, and
  returns that error as it is.
\<close>

definition ReadVarUint :: "reader \<Rightarrow> 64 word \<Rightarrow> error + (64 word \<times> reader)" where
  "ReadVarUint rd maxint0 =
     (let maxint = (if maxint0 = 0x00 then MaxUint64 else maxint0) in
      case Read rd 1 of (fb, n0, err0, r1) \<Rightarrow>
        (case err0 of
           Some e \<Rightarrow> Inl e
         | None \<Rightarrow>
            (let decoded =
               (if fb ! 0 = 0xfd then
                  (case Read r1 2 of (b, n, err, r2) \<Rightarrow>
                     (case err of Some e \<Rightarrow> Inl e
                      | None \<Rightarrow> Inr (ucast (Uint16 b) :: 64 word, r2)))
                else if fb ! 0 = 0xfe then
                  (case Read r1 4 of (b, n, err, r2) \<Rightarrow>
                     (case err of Some e \<Rightarrow> Inl e
                      | None \<Rightarrow> Inr (ucast (Uint32 b), r2)))
                else if fb ! 0 = 0xff then
                  (case Read r1 8 of (b, n, err, r2) \<Rightarrow>
                     (case err of Some e \<Rightarrow> Inl e
                      | None \<Rightarrow> Inr (Uint64 b, r2)))
                else Inr (ucast (fb ! 0), r1))
             in case decoded of
                  Inl e \<Rightarrow> Inl e
                | Inr (res, r') \<Rightarrow> if res > maxint then Inl ErrRange else Inr (res, r'))))"

definition WriteVarBytes :: "byte list \<Rightarrow> byte list \<Rightarrow> byte list" where
  "WriteVarBytes writer val = WriteVarUint writer (of_nat (length val)) @ val"

text \<open>
  \<open>make([]byte, x)\<close> with a \<open>uint64\<close> length panics with "makeslice: len out of
  range" when the length is negative as an \<open>int\<close> or the bytes asked for exceed the
  runtime's \<open>maxAlloc\<close>, which is \<open>1 << 48\<close> on the 64-bit platforms (48 heap
  address bits). Every \<open>x\<close> from \<open>2 ^ 63\<close> on is above it. An allocation within the
  limit is taken to succeed.
\<close>

definition maxAlloc :: nat where
  "maxAlloc = 2 ^ 48"

text \<open>
  byteXReader allocates \<open>x\<close> bytes and reads once. A positive count is success whatever
  the count; with a zero count it returns the reader's error, which is nil when the
  request was for no byte and input remains. The panic of the allocation is the error
  \<open>PanicMakeSliceLen\<close>, which the callers hand on like any error; nothing is read
  then.
\<close>

definition byteXReader :: "reader \<Rightarrow> 64 word \<Rightarrow> byte list \<times> error option \<times> reader" where
  "byteXReader rd x =
     (if maxAlloc < unat x then ([], Some PanicMakeSliceLen, rd)
      else
        case Read rd (unat x) of (p, n, err, r') \<Rightarrow>
          if n > 0 then (p, None, r') else (p, err, r'))"

definition ReadVarBytes :: "reader \<Rightarrow> error + (byte list \<times> reader)" where
  "ReadVarBytes rd =
     (case ReadVarUint rd 0 of
        Inl e \<Rightarrow> Inl e
      | Inr (val, r1) \<Rightarrow>
          (case byteXReader r1 val of (str, err, r2) \<Rightarrow>
             (case err of Some e \<Rightarrow> Inl e | None \<Rightarrow> Inr (str, r2))))"

definition ReadBytes :: "reader \<Rightarrow> 64 word \<Rightarrow> error + (byte list \<times> reader)" where
  "ReadBytes rd len =
     (case byteXReader rd len of (str, err, r') \<Rightarrow>
        (case err of Some e \<Rightarrow> Inl e | None \<Rightarrow> Inr (str, r')))"

definition ReadUint8 :: "reader \<Rightarrow> error + (byte \<times> reader)" where
  "ReadUint8 rd =
     (case Read rd 1 of (p, n, err, r') \<Rightarrow>
        if n \<le> 0 \<or> err \<noteq> None then Inl ErrEof else Inr (p ! 0, r'))"

definition ReadUint16 :: "reader \<Rightarrow> error + (16 word \<times> reader)" where
  "ReadUint16 rd =
     (case Read rd 2 of (p, n, err, r') \<Rightarrow>
        if n \<le> 0 \<or> err \<noteq> None then Inl ErrEof else Inr (Uint16 p, r'))"

definition ReadUint32 :: "reader \<Rightarrow> error + (32 word \<times> reader)" where
  "ReadUint32 rd =
     (case Read rd 4 of (p, n, err, r') \<Rightarrow>
        if n \<le> 0 \<or> err \<noteq> None then Inl ErrEof else Inr (Uint32 p, r'))"

definition ReadUint64 :: "reader \<Rightarrow> error + (64 word \<times> reader)" where
  "ReadUint64 rd =
     (case Read rd 8 of (p, n, err, r') \<Rightarrow>
        if n \<le> 0 \<or> err \<noteq> None then Inl ErrEof else Inr (Uint64 p, r'))"


text \<open>
  WriteElement and ReadElement switch on the dynamic type of their argument. The
  argument is a value of \<open>element\<close>; for ReadElement it is the current contents of the
  pointer passed, which matters for the two slice cases, where as many hashes are read
  as the slice already has entries.
\<close>

type_synonym Uint256 = "byte list"

datatype element =
    EUint256 Uint256
  | EUint256Slice "Uint256 list"
  | EUint256PtrSlice "Uint256 list"
  | EBytes "byte list"
  | EUint8 byte
  | EUint16 "16 word"
  | EUint32 "32 word"

text \<open>
  Modelled from the spec: \<open>Uint256.Serialize\<close> and \<open>Uint256.Deserialize\<close> of package
  common are not among the sources. The spec has Hash256 as a 32-byte value that takes
  32 bytes of an OutPoint's 34 on the wire: Serialize writes the 32 bytes, Deserialize
  takes the next 32 bytes and fails when the input is shorter.
\<close>

definition Uint256_Serialize :: "byte list \<Rightarrow> Uint256 \<Rightarrow> byte list" where
  "Uint256_Serialize writer u = writer @ u"

definition Uint256_Deserialize :: "reader \<Rightarrow> error + (Uint256 \<times> reader)" where
  "Uint256_Deserialize rd = ReadFull rd 32"

text \<open>\<open>binary.Write\<close> and \<open>binary.Read\<close> of a fixed-width unsigned integer.\<close>

definition binary_Read :: "reader \<Rightarrow> nat \<Rightarrow> (byte list \<Rightarrow> 'a) \<Rightarrow> error + ('a \<times> reader)" where
  "binary_Read rd width decode =
     (case ReadFull rd width of Inl e \<Rightarrow> Inl e | Inr (bs, r') \<Rightarrow> Inr (decode bs, r'))"

fun WriteElement :: "byte list \<Rightarrow> element \<Rightarrow> byte list" where
  "WriteElement writer (EUint256 e) = Uint256_Serialize writer e"
| "WriteElement writer (EUint256Slice e) = foldl Uint256_Serialize writer e"
| "WriteElement writer (EUint256PtrSlice e) = foldl Uint256_Serialize writer e"
| "WriteElement writer (EBytes e) = WriteVarBytes writer e"
| "WriteElement writer (EUint8 e) = writer @ [e]"
| "WriteElement writer (EUint16 e) = writer @ PutUint16 e"
| "WriteElement writer (EUint32 e) = writer @ PutUint32 e"

definition WriteElements :: "byte list \<Rightarrow> element list \<Rightarrow> byte list" where
  "WriteElements writer elements = foldl WriteElement writer elements"

fun ReadUint256s :: "reader \<Rightarrow> nat \<Rightarrow> error + (Uint256 list \<times> reader)" where
  "ReadUint256s rd 0 = Inr ([], rd)"
| "ReadUint256s rd (Suc n) =
     (case Uint256_Deserialize rd of
        Inl e \<Rightarrow> Inl e
      | Inr (v, r1) \<Rightarrow>
          (case ReadUint256s r1 n of
             Inl e \<Rightarrow> Inl e
           | Inr (vs, r2) \<Rightarrow> Inr (v # vs, r2)))"

fun ReadElement :: "reader \<Rightarrow> element \<Rightarrow> error + (element \<times> reader)" where
  "ReadElement rd (EUint256 e) =
     (case Uint256_Deserialize rd of Inl err \<Rightarrow> Inl err | Inr (v, r') \<Rightarrow> Inr (EUint256 v, r'))"
| "ReadElement rd (EUint256Slice e) =
     (case ReadUint256s rd (length e) of
        Inl err \<Rightarrow> Inl err | Inr (vs, r') \<Rightarrow> Inr (EUint256Slice vs, r'))"
| "ReadElement rd (EUint256PtrSlice e) =
     (case ReadUint256s rd (length e) of
        Inl err \<Rightarrow> Inl err | Inr (vs, r') \<Rightarrow> Inr (EUint256PtrSlice vs, r'))"
| "ReadElement rd (EBytes e) =
     (case ReadVarBytes rd of Inl err \<Rightarrow> Inl err | Inr (v, r') \<Rightarrow> Inr (EBytes v, r'))"
| "ReadElement rd (EUint8 e) =
     (case binary_Read rd 1 (\<lambda>bs. bs ! 0) of
        Inl err \<Rightarrow> Inl err | Inr (v, r') \<Rightarrow> Inr (EUint8 v, r'))"
| "ReadElement rd (EUint16 e) =
     (case binary_Read rd 2 Uint16 of
        Inl err \<Rightarrow> Inl err | Inr (v, r') \<Rightarrow> Inr (EUint16 v, r'))"
| "ReadElement rd (EUint32 e) =
     (case binary_Read rd 4 Uint32 of
        Inl err \<Rightarrow> Inl err | Inr (v, r') \<Rightarrow> Inr (EUint32 v, r'))"

fun ReadElements :: "reader \<Rightarrow> element list \<Rightarrow> error + (element list \<times> reader)" where
  "ReadElements rd [] = Inr ([], rd)"
| "ReadElements rd (e # es) =
     (case ReadElement rd e of
        Inl err \<Rightarrow> Inl err
      | Inr (v, r1) \<Rightarrow>
          (case ReadElements r1 es of
             Inl err \<Rightarrow> Inl err
           | Inr (vs, r2) \<Rightarrow> Inr (v # vs, r2)))"

section \<open>OutPoint, DataReq and FunctionCode\<close>

record OutPoint =
  TxID :: Uint256
  Index :: "16 word"

definition OutPoint_Serialize :: "OutPoint \<Rightarrow> byte list \<Rightarrow> byte list" where
  "OutPoint_Serialize op w = WriteElements w [EUint256 (TxID op), EUint16 (Index op)]"

text \<open>
  Deserialize fills the receiver through the two pointers; on an error the receiver is
  not returned.
\<close>

definition OutPoint_Deserialize :: "OutPoint \<Rightarrow> reader \<Rightarrow> error + (OutPoint \<times> reader)" where
  "OutPoint_Deserialize op rd =
     (case ReadElements rd [EUint256 (TxID op), EUint16 (Index op)] of
        Inl err \<Rightarrow> Inl err
      | Inr ([EUint256 t, EUint16 i], r') \<Rightarrow> Inr (op\<lparr>TxID := t, Index := i\<rparr>, r')
      | Inr (_, r') \<Rightarrow> Inr (op, r'))"

definition OutPoint_Bytes :: "OutPoint \<Rightarrow> byte list" where
  "OutPoint_Bytes op = OutPoint_Serialize op []"

definition NewOutPoint :: "Uint256 \<Rightarrow> 16 word \<Rightarrow> OutPoint" where
  "NewOutPoint txId index = \<lparr>TxID = txId, Index = index\<rparr>"

text \<open>\<open>new(OutPoint)\<close>: the zero value, a hash of 32 zero bytes and index 0.\<close>

definition new_OutPoint :: OutPoint where
  "new_OutPoint = \<lparr>TxID = replicate 32 0, Index = 0\<rparr>"

definition OutPointFromBytes :: "byte list \<Rightarrow> error + OutPoint" where
  "OutPointFromBytes val =
     (case OutPoint_Deserialize new_OutPoint val of
        Inl err \<Rightarrow> Inl err
      | Inr (outPoint, r') \<Rightarrow> Inr outPoint)"

record DataReq =
  Type :: byte
  Hash :: Uint256

definition DataReq_Serialize :: "DataReq \<Rightarrow> byte list" where
  "DataReq_Serialize msg = WriteElements [] [EUint8 (Type msg), EUint256 (Hash msg)]"

definition DataReq_Deserialize :: "DataReq \<Rightarrow> byte list \<Rightarrow> error + DataReq" where
  "DataReq_Deserialize msg body =
     (case ReadElements body [EUint8 (Type msg), EUint256 (Hash msg)] of
        Inl err \<Rightarrow> Inl err
      | Inr ([EUint8 t, EUint256 h], r') \<Rightarrow> Inr (msg\<lparr>Type := t, Hash := h\<rparr>)
      | Inr (_, r') \<Rightarrow> Inr msg)"

text \<open>
  \<open>ContractParameterType\<close> and the conversions \<open>ContractParameterTypeToByte\<close> and
  \<open>ByteToContractParameterType\<close> belong to package contract, which is not among the
  sources: the parameter type is the type variable \<open>'t\<close> and the two conversions are
  parameters of the codec.
\<close>

record 't FunctionCode =
  Code :: "byte list"
  ParameterTypes :: "'t list"
  ReturnTypes :: "'t list"

definition FunctionCode_Serialize ::
  "('t list \<Rightarrow> byte list) \<Rightarrow> 't FunctionCode \<Rightarrow> byte list \<Rightarrow> byte list" where
  "FunctionCode_Serialize ContractParameterTypeToByte fc w =
     WriteVarBytes (WriteVarBytes w (ContractParameterTypeToByte (ParameterTypes fc))) (Code fc)"

definition FunctionCode_Deserialize ::
  "(byte list \<Rightarrow> 't list) \<Rightarrow> 't FunctionCode \<Rightarrow> reader \<Rightarrow> error + ('t FunctionCode \<times> reader)" where
  "FunctionCode_Deserialize ByteToContractParameterType fc rd =
     (case ReadVarBytes rd of
        Inl err \<Rightarrow> Inl err
      | Inr (p, r1) \<Rightarrow>
          (case ReadVarBytes r1 of
             Inl err \<Rightarrow> Inl err
           | Inr (c, r2) \<Rightarrow>
               Inr (fc\<lparr>ParameterTypes := ByteToContractParameterType p, Code := c\<rparr>, r2)))"

text \<open>\<open>new(FunctionCode)\<close>: all three slices nil.\<close>

definition new_FunctionCode :: "'t FunctionCode" where
  "new_FunctionCode = \<lparr>Code = [], ParameterTypes = [], ReturnTypes = []\<rparr>"


section \<open>Message header\<close>

abbreviation CMDLEN :: nat where "CMDLEN \<equiv> 12"
abbreviation CMDOFFSET :: nat where "CMDOFFSET \<equiv> 4"
abbreviation CHECKSUMLEN :: nat where "CHECKSUMLEN \<equiv> 4"
abbreviation HEADERLEN :: nat where "HEADERLEN \<equiv> 24"

definition EmptyMsgSum :: "byte list" where
  "EmptyMsgSum = [0x5d, 0xf6, 0xe0, 0xe2]"

text \<open>
  \<open>CMD\<close> is a \<open>[12]byte\<close> and \<open>Checksum\<close> a \<open>[4]byte\<close>: lists of that length in
  every header the functions below build.
\<close>

record Header =
  Magic :: "32 word"
  CMD :: "byte list"
  Length :: "32 word"
  Checksum :: "byte list"

text \<open>
  The configured network magic (\<open>config.Config().Magic\<close>) and the double SHA-256 of
  package core are not among the sources: they are the parameters \<open>magic\<close> and
  \<open>Sha256D\<close>. A command string is its bytes. Slicing past the end panics.
\<close>

definition NewHeader ::
  "32 word \<Rightarrow> byte list \<Rightarrow> byte list \<Rightarrow> int \<Rightarrow> error + Header" where
  "NewHeader magic cmd checksum len =
     (if CMDLEN < length cmd then Inl PanicSliceBounds
      else if length checksum < CHECKSUMLEN then Inl PanicSliceBounds
      else Inr \<lparr>Magic = magic,
                CMD = cmd @ replicate (CMDLEN - length cmd) 0,
                Length = word_of_int len,
                Checksum = take CHECKSUMLEN checksum\<rparr>)"

definition BuildHeader ::
  "32 word \<Rightarrow> (byte list \<Rightarrow> byte list) \<Rightarrow> byte list \<Rightarrow> byte list \<Rightarrow> error + Header" where
  "BuildHeader magic Sha256D cmd msg = NewHeader magic cmd (Sha256D msg) (int (length msg))"

definition Header_Verify ::
  "32 word \<Rightarrow> (byte list \<Rightarrow> byte list) \<Rightarrow> Header \<Rightarrow> byte list \<Rightarrow> error option" where
  "Header_Verify magic Sha256D header buf =
     (if Magic header \<noteq> magic then Some (UnmatchedMagic (Magic header))
      else
        let sum = Sha256D buf;
            checksum = take CHECKSUMLEN sum
        in if Checksum header \<noteq> checksum then Some UnmatchedChecksum else None)"

definition Header_Serialize :: "Header \<Rightarrow> byte list" where
  "Header_Serialize header =
     PutUint32 (Magic header) @ CMD header @ PutUint32 (Length header) @ Checksum header"

text \<open>\<open>bytes.IndexByte\<close>: the index of the first occurrence, or -1.\<close>

fun IndexByte :: "byte list \<Rightarrow> byte \<Rightarrow> int" where
  "IndexByte [] c = -1"
| "IndexByte (b # bs) c =
     (if b = c then 0 else (let i = IndexByte bs c in if i < 0 then -1 else i + 1))"

definition Header_Deserialize :: "byte list \<Rightarrow> error + Header" where
  "Header_Deserialize buf =
     (if length buf < CMDOFFSET + CMDLEN then Inl PanicSliceBounds
      else
        let cmd = take CMDLEN (drop CMDOFFSET buf);
            end = IndexByte cmd 0
        in if end < 0 \<or> end \<ge> int CMDLEN then Inl UnexpectedLengthOfCMD
           else if length buf < HEADERLEN then Inl PanicSliceBounds
           else
             let hdr = take HEADERLEN buf
             in Inr \<lparr>Magic = Uint32 (take 4 hdr),
                      CMD = take CMDLEN (drop 4 hdr),
                      Length = Uint32 (take 4 (drop 16 hdr)),
                      Checksum = take CHECKSUMLEN (drop 20 hdr)\<rparr>)"

definition GetCMD :: "Header \<Rightarrow> error + byte list" where
  "GetCMD header =
     (let end = IndexByte (CMD header) 0
      in if end < 0 \<or> int (length (CMD header)) < end then Inl PanicSliceBounds
         else Inr (take (nat end) (CMD header)))"

section \<open>Merkle block\<close>

text \<open>
  Of the block header (\<open>core.Header\<close>, not among the sources) the verifier reads the
  merkle root only. \<open>Hashes\<close> is a slice of pointers, so an entry is optional.
\<close>

record core_Header =
  MerkleRoot :: Uint256

record MerkleBlock =
  BlockHeader :: core_Header
  Transactions :: "32 word"
  Hashes :: "Uint256 option list"
  Flags :: "byte list"

text \<open>
  Both arguments are pointers. \<open>Uint256.IsEqual\<close> is equality of the 32 bytes, and
  the two copies into the 64-byte array are the concatenation of the two hashes.
\<close>

definition MakeMerkleParent ::
  "(byte list \<Rightarrow> byte list) \<Rightarrow> Uint256 option \<Rightarrow> Uint256 option \<Rightarrow> error + Uint256" where
  "MakeMerkleParent Sha256D left right =
     (if left \<noteq> None \<and> right \<noteq> None \<and> the left = the right then Inl DupHashCrash
      else
        case left of
          None \<Rightarrow> Inl LeftChildIsNil
        | Some l \<Rightarrow>
            let r = (case right of None \<Rightarrow> l | Some r \<Rightarrow> r)
            in Inr (Sha256D (l @ r)))"

text \<open>A stack node: the position \<open>p\<close> in the tree and the hash \<open>h\<close>, nil until known.\<close>

type_synonym merkleNode = "32 word \<times> Uint256 option"

text \<open>
  \<open>1 << e\<close> on \<open>uint32\<close> with a \<open>uint32\<close> count: 0 once the count reaches 32. The loop
  of treeDepth has no bound of its own, so not returning is the value \<open>None\<close>.
\<close>

partial_function (option) treeDepth_from :: "32 word \<Rightarrow> 32 word \<Rightarrow> 32 word option" where
  "treeDepth_from n e =
     (if push_bit (unat e) (1 :: 32 word) < n then treeDepth_from n (e + 1) else Some e)"

declare treeDepth_from.simps [code]

definition treeDepth :: "32 word \<Rightarrow> 32 word option" where
  "treeDepth n = treeDepth_from n 0"

definition nextPowerOfTwo :: "32 word \<Rightarrow> 32 word option" where
  "nextPowerOfTwo n =
     (case treeDepth n of None \<Rightarrow> None | Some e \<Rightarrow> Some (push_bit (unat e) 1))"

partial_function (option) inDeadZone_loop ::
  "32 word \<Rightarrow> 32 word \<Rightarrow> 32 word \<Rightarrow> 32 word \<Rightarrow> bool option" where
  "inDeadZone_loop msb pos hh last' =
     (if pos \<ge> hh then inDeadZone_loop msb pos (drop_bit 1 hh OR msb) (drop_bit 1 last' OR msb)
      else Some (pos > last'))"

declare inDeadZone_loop.simps [code]

definition inDeadZone :: "32 word \<Rightarrow> 32 word \<Rightarrow> bool option" where
  "inDeadZone pos sz =
     (case nextPowerOfTwo sz of
        None \<Rightarrow> None
      | Some msb \<Rightarrow>
          if pos > push_bit 1 msb - 2 then Some True
          else inDeadZone_loop msb pos msb (sz - 1))"

text \<open>
  The variables of the main loop: the stack \<open>s\<close>, the result \<open>r\<close>, the position
  \<open>pos\<close>, the bit index \<open>i\<close> in the current flag byte, and what is left of
  \<open>m.Hashes\<close> and \<open>m.Flags\<close>.
\<close>

type_synonym loop_state =
  "merkleNode list \<times> Uint256 option list \<times> 32 word \<times> 8 word \<times> Uint256 option list \<times> byte list"

type_synonym check_result = "Uint256 option list \<times> error option"

text \<open>The end of an iteration that pushed a node: advance the flag bit.\<close>

definition advance_flag :: "loop_state \<Rightarrow> loop_state" where
  "advance_flag st =
     (case st of (s, r, pos, i, hashes, flags) \<Rightarrow>
        let i' = i + 1
        in if i' = 8 then (s, r, pos, 0, hashes, tl flags) else (s, r, pos, i', hashes, flags))"

text \<open>
  One iteration of the main loop: \<open>Inl\<close> the variables for the next iteration or
  \<open>Inr\<close> the values returned; \<open>None\<close> when inDeadZone does not return. An index
  outside the stack panics.
\<close>

definition loop_body ::
  "(byte list \<Rightarrow> byte list) \<Rightarrow> Uint256 \<Rightarrow> 32 word \<Rightarrow> 32 word \<Rightarrow> loop_state
     \<Rightarrow> (loop_state + check_result) option" where
  "loop_body Sha256D root txs msb st =
     (case st of (s, r, pos, i, hashes, flags) \<Rightarrow>
      let tip = int (length s) - 1 in
      if tip = 0 \<and> snd (s ! 0) \<noteq> None then
        (if the (snd (s ! 0)) = root then Some (Inr (r, None))
         else Some (Inr ([], Some (ComputedRootMismatch (the (snd (s ! 0))) root))))
      else
       (case inDeadZone pos txs of
          None \<Rightarrow> None
        | Some True \<Rightarrow>
            if tip < 0 then Some (Inr ([], Some PanicIndexOutOfRange))
            else
              (case MakeMerkleParent Sha256D (snd (s ! nat tip)) None of
                 Inl err \<Rightarrow> Some (Inr (r, Some err))
               | Inr h \<Rightarrow>
                   if tip - 1 < 0 then Some (Inr ([], Some PanicIndexOutOfRange))
                   else
                     let s1 = s[nat (tip - 1) := (fst (s ! nat (tip - 1)), Some h)];
                         s2 = take (nat tip) s1;
                         pos' = fst (s2 ! nat (tip - 1)) OR 1
                     in Some (Inl (s2, r, pos', i, hashes, flags)))
        | Some False \<Rightarrow>
            if tip > 1 \<and> snd (s ! nat (tip - 1)) \<noteq> None \<and> snd (s ! nat tip) \<noteq> None then
              (case MakeMerkleParent Sha256D (snd (s ! nat (tip - 1))) (snd (s ! nat tip)) of
                 Inl err \<Rightarrow> Some (Inr (r, Some err))
               | Inr h \<Rightarrow>
                   let s1 = s[nat (tip - 2) := (fst (s ! nat (tip - 2)), Some h)];
                       s2 = take (nat (tip - 1)) s1;
                       pos' = fst (s2 ! nat (tip - 2)) OR 1
                   in Some (Inl (s2, r, pos', i, hashes, flags)))
            else if hashes = [] then Some (Inr ([], Some (RanOutOfHashes pos)))
            else if flags = [] then Some (Inr ([], Some RanOutOfFlagBits))
            else if (pos AND msb) \<noteq> 0 then
              (if (hd flags AND push_bit (unat i) 1) = 0 then
                 Some (Inl (advance_flag
                   (s @ [(pos, hd hashes)], r,
                    (if (pos AND 1) \<noteq> 0 then drop_bit 1 pos OR msb else pos OR 1),
                    i, tl hashes, flags)))
               else
                 Some (Inl (advance_flag
                   (s @ [(pos, None)], r, push_bit 1 (pos XOR msb), i, hashes, flags))))
            else if pos \<ge> txs then Some (Inr ([], Some InvalidTxidNode))
            else
              Some (Inl (advance_flag
                (s @ [(pos, hd hashes)],
                 (if (hd flags AND push_bit (unat i) 1) \<noteq> 0 then r @ [hd hashes] else r),
                 (if (pos AND 1) = 0 then pos OR 1 else pos),
                 i, tl hashes, flags)))))"

partial_function (option) main_loop ::
  "(byte list \<Rightarrow> byte list) \<Rightarrow> Uint256 \<Rightarrow> 32 word \<Rightarrow> 32 word \<Rightarrow> loop_state
     \<Rightarrow> check_result option" where
  "main_loop Sha256D root txs msb st =
     (case loop_body Sha256D root txs msb st of
        None \<Rightarrow> None
      | Some (Inr res) \<Rightarrow> Some res
      | Some (Inl st') \<Rightarrow> main_loop Sha256D root txs msb st')"

declare main_loop.simps [code]

text \<open>
  CheckMerkleBlock returns the txids and the error; \<open>None\<close> when it does not return.
  A nil slice is the empty list.
\<close>

definition CheckMerkleBlock ::
  "(byte list \<Rightarrow> byte list) \<Rightarrow> MerkleBlock \<Rightarrow> check_result option" where
  "CheckMerkleBlock Sha256D m =
     (if Transactions m = 0 then Some ([], Some NoTransactions)
      else if length (Flags m) = 0 then Some ([], Some NoFlagBits)
      else
        case nextPowerOfTwo (Transactions m) of
          None \<Rightarrow> None
        | Some msb \<Rightarrow>
            main_loop Sha256D (MerkleRoot (BlockHeader m)) (Transactions m) msb
              ([], [], push_bit 1 msb - 2, 0, Hashes m, Flags m))"


section \<open>The partial merkle tree of the test\<close>

text \<open>
  Modelled from the spec: the builder \<open>MBlock\<close> that the test \<open>run\<close> calls
  (\<open>CalcTreeWidth\<close>, \<open>CalcHash\<close>, \<open>TraverseAndBuild\<close>) is not among the sources.
  The spec's merkle tree has \<open>parent = SHA256D(left || right)\<close>, and a node without a
  right sibling is paired with itself; a row of the tree over \<open>NumTx\<close> leaves has
  \<open>NumTx / 2 ^ height\<close> nodes, rounded up. The partial tree is written in the order the
  verifier reads it, depth first from the root: every node gives one flag bit; an inner
  node with flag 0 gives the hash of its subtree and is not descended into, an inner
  node with flag 1 is followed by its left and then its right subtree; a leaf always
  gives its hash, and its flag says whether it is matched. An inner node has flag 1 when
  a matched leaf lies below it.
\<close>

definition CalcTreeWidth :: "nat \<Rightarrow> nat \<Rightarrow> nat" where
  "CalcTreeWidth NumTx height = (NumTx + 2 ^ height - 1) div 2 ^ height"

fun CalcHash :: "(byte list \<Rightarrow> byte list) \<Rightarrow> Uint256 list \<Rightarrow> nat \<Rightarrow> nat \<Rightarrow> Uint256" where
  "CalcHash Sha256D AllHashes 0 pos = AllHashes ! pos"
| "CalcHash Sha256D AllHashes (Suc height) pos =
     (let left = CalcHash Sha256D AllHashes height (pos * 2);
          right = (if pos * 2 + 1 < CalcTreeWidth (length AllHashes) height
                   then CalcHash Sha256D AllHashes height (pos * 2 + 1)
                   else left)
      in Sha256D (left @ right))"

definition isParent :: "bool list \<Rightarrow> nat \<Rightarrow> nat \<Rightarrow> bool" where
  "isParent MatchedBits height pos =
     list_ex (\<lambda>i. MatchedBits ! i)
       [pos * 2 ^ height ..< min ((pos + 1) * 2 ^ height) (length MatchedBits)]"

fun TraverseAndBuild ::
  "(byte list \<Rightarrow> byte list) \<Rightarrow> Uint256 list \<Rightarrow> bool list \<Rightarrow> nat \<Rightarrow> nat
     \<Rightarrow> bool list \<times> Uint256 list" where
  "TraverseAndBuild Sha256D AllHashes MatchedBits 0 pos =
     ([isParent MatchedBits 0 pos], [CalcHash Sha256D AllHashes 0 pos])"
| "TraverseAndBuild Sha256D AllHashes MatchedBits (Suc height) pos =
     (if \<not> isParent MatchedBits (Suc height) pos
      then ([False], [CalcHash Sha256D AllHashes (Suc height) pos])
      else
        let lt = TraverseAndBuild Sha256D AllHashes MatchedBits height (pos * 2);
            rt = (if pos * 2 + 1 < CalcTreeWidth (length AllHashes) height
                  then TraverseAndBuild Sha256D AllHashes MatchedBits height (pos * 2 + 1)
                  else ([], []))
        in (True # fst lt @ fst rt, snd lt @ snd rt))"

text \<open>
  The rest is the test \<open>run\<close> itself. The number of rows above the leaves: the loop
  \<open>for mBlock.CalcTreeWidth(height) > 1 { height++ }\<close>.
\<close>

function tree_height_from :: "nat \<Rightarrow> nat \<Rightarrow> nat" where
  "tree_height_from NumTx height =
     (if CalcTreeWidth NumTx height > 1 then tree_height_from NumTx (height + 1) else height)"
  by pat_completeness auto

termination tree_height_from
proof (relation "measure (\<lambda>(n, h). n - 2 ^ h)")
  show "wf (measure (\<lambda>(n, h). n - 2 ^ h))" by simp
next
  fix NumTx height :: nat
  assume w: "1 < CalcTreeWidth NumTx height"
  have p: "(0::nat) < 2 ^ height" by simp
  have "2 ^ height < NumTx"
  proof (rule ccontr)
    assume "\<not> 2 ^ height < NumTx"
    with p have "NumTx + 2 ^ height - 1 < 2 * 2 ^ height" by linarith
    then have "(NumTx + 2 ^ height - 1) div 2 ^ height < 2" by (rule less_mult_imp_div_less)
    with w show False by (simp add: CalcTreeWidth_def)
  qed
  with p have "NumTx - 2 * 2 ^ height < NumTx - 2 ^ height" by linarith
  then show "((NumTx, height + 1), NumTx, height) \<in> measure (\<lambda>(n, h). n - 2 ^ h)" by simp
qed

declare tree_height_from.simps [simp del]

text \<open>
  The flag bytes: \<open>(len(Bits)+7)/8\<close> zero bytes, then
  \<open>Flags[i/8] |= Bits[i] << (i % 8)\<close> for every bit.
\<close>

definition pack_flags :: "bool list \<Rightarrow> byte list" where
  "pack_flags Bits =
     foldl (\<lambda>fl i. fl[i div 8 := (fl ! (i div 8)) OR push_bit (i mod 8) (if Bits ! i then 1 else 0)])
       (replicate ((length Bits + 7) div 8) 0) [0..<length Bits]"

text \<open>
  The merkle block \<open>run\<close> hands to CheckMerkleBlock, for the leaf hashes and the
  matches it drew at random. The number of leaves is the number of hashes.
\<close>

definition run_MerkleBlock ::
  "(byte list \<Rightarrow> byte list) \<Rightarrow> Uint256 list \<Rightarrow> bool list \<Rightarrow> MerkleBlock option" where
  "run_MerkleBlock Sha256D AllHashes MatchedBits =
     (let txs = length AllHashes;
          height = tree_height_from txs 0;
          built = TraverseAndBuild Sha256D AllHashes MatchedBits height 0
      in case treeDepth (of_nat txs) of
           None \<Rightarrow> None
         | Some e \<Rightarrow>
             Some \<lparr>BlockHeader = \<lparr>MerkleRoot = CalcHash Sha256D AllHashes (unat e) 0\<rparr>,
                   Transactions = of_nat txs,
                   Hashes = map Some (snd built),
                   Flags = pack_flags (fst built)\<rparr>)"

text \<open>The leaf hashes that are matched, in leaf order.\<close>

definition matched_txids :: "Uint256 list \<Rightarrow> bool list \<Rightarrow> Uint256 list" where
  "matched_txids AllHashes MatchedBits = map fst (filter snd (zip AllHashes MatchedBits))"

text \<open>
  The trees the duplicate check of MakeMerkleParent has nothing against: in every row,
  two nodes with the same parent carry different hashes.
\<close>

definition distinct_siblings :: "(byte list \<Rightarrow> byte list) \<Rightarrow> Uint256 list \<Rightarrow> bool" where
  "distinct_siblings Sha256D AllHashes =
     list_all (\<lambda>height.
        list_all (\<lambda>pos.
            pos * 2 + 1 < CalcTreeWidth (length AllHashes) height \<longrightarrow>
            CalcHash Sha256D AllHashes height (pos * 2)
              \<noteq> CalcHash Sha256D AllHashes height (pos * 2 + 1))
          [0..<CalcTreeWidth (length AllHashes) (Suc height)])
       [0..<tree_height_from (length AllHashes) 0]"

text \<open>
  A stand-in for the double SHA-256, to run the definitions on concrete blocks: it
  mixes the two halves of its input byte by byte.
\<close>

definition sample_hash :: "byte list \<Rightarrow> byte list" where
  "sample_hash bs =
     map (\<lambda>(x, y). 3 * x + y + 1)
       (zip (take (length bs div 2) bs) (drop (length bs div 2) bs))"

section \<open>Running the main loop\<close>




section \<open>The spec's words for the codec\<close>

text \<open>
  Byte \<open>k\<close> of a value in little-endian order, by arithmetic on the value, and the
  spec's VarUint: one byte below \<open>0xFD\<close> is the value itself; \<open>0xFD\<close> and two bytes
  for a value that fits 16 bits; \<open>0xFE\<close> and four bytes for one that fits 32 bits;
  \<open>0xFF\<close> and eight bytes otherwise.
\<close>

definition le_byte :: "64 word \<Rightarrow> nat \<Rightarrow> byte" where
  "le_byte v k = of_nat (unat v div 256 ^ k mod 256)"

definition spec_VarUint :: "64 word \<Rightarrow> byte list" where
  "spec_VarUint v =
     (if unat v < 0xFD then [le_byte v 0]
      else if unat v < 2 ^ 16 then [0xFD, le_byte v 0, le_byte v 1]
      else if unat v < 2 ^ 32 then [0xFE, le_byte v 0, le_byte v 1, le_byte v 2, le_byte v 3]
      else [0xFF, le_byte v 0, le_byte v 1, le_byte v 2, le_byte v 3,
            le_byte v 4, le_byte v 5, le_byte v 6, le_byte v 7])"

text \<open>ReadVarUint up to its range check: the value decoded, whatever the limit.\<close>

definition raw_VarUint :: "reader \<Rightarrow> error + (64 word \<times> reader)" where
  "raw_VarUint rd =
     (case Read rd 1 of (fb, n0, err0, r1) \<Rightarrow>
        (case err0 of
           Some e \<Rightarrow> Inl e
         | None \<Rightarrow>
               (if fb ! 0 = 0xfd then
                  (case Read r1 2 of (b, n, err, r2) \<Rightarrow>
                     (case err of Some e \<Rightarrow> Inl e
                      | None \<Rightarrow> Inr (ucast (Uint16 b) :: 64 word, r2)))
                else if fb ! 0 = 0xfe then
                  (case Read r1 4 of (b, n, err, r2) \<Rightarrow>
                     (case err of Some e \<Rightarrow> Inl e
                      | None \<Rightarrow> Inr (ucast (Uint32 b), r2)))
                else if fb ! 0 = 0xff then
                  (case Read r1 8 of (b, n, err, r2) \<Rightarrow>
                     (case err of Some e \<Rightarrow> Inl e
                      | None \<Rightarrow> Inr (Uint64 b, r2)))
                else Inr (ucast (fb ! 0), r1))))"


section \<open>Positions, flag bits and subtrees\<close>

text \<open>
  The verifier numbers the nodes row by row, the leaves first: with \<open>d\<close> rows above the
  leaves, the leaf row starts at 0 and row \<open>k\<close> at \<open>2 ^ (d + 1) - 2 ^ (d + 1 - k)\<close>, so
  that the root is \<open>2 ^ (d + 1) - 2\<close>. \<open>tree_pos d k j\<close> is node \<open>j\<close> of row \<open>k\<close>.
\<close>

definition tree_pos :: "nat \<Rightarrow> nat \<Rightarrow> nat \<Rightarrow> nat" where
  "tree_pos d k j = 2 ^ (d + 1) - 2 ^ (d + 1 - k) + j"

text \<open>
  The flag bytes as the bits the main loop reads: the lowest bit of a byte first, from
  bit \<open>i\<close> of the first byte on. \<open>bits_at i flags bs\<close>: the loop is at bit \<open>i\<close> of
  \<open>flags\<close> and the bits ahead of it are \<open>bs\<close>.
\<close>

definition byte_bits :: "byte \<Rightarrow> bool list" where
  "byte_bits b = map (bit b) [0..<8]"

definition flag_bits :: "8 word \<Rightarrow> byte list \<Rightarrow> bool list" where
  "flag_bits i flags = drop (unat i) (concat (map byte_bits flags))"

definition bits_at :: "8 word \<Rightarrow> byte list \<Rightarrow> bool list \<Rightarrow> bool" where
  "bits_at i flags bs \<longleftrightarrow> unat i < 8 \<and> flag_bits i flags = bs"

text \<open>
  One round of the loop of \<open>run\<close> that packs the bits into the flag bytes.
\<close>

definition pack_step :: "bool list \<Rightarrow> byte list \<Rightarrow> nat \<Rightarrow> byte list" where
  "pack_step Bits fl i =
     fl[i div 8 := (fl ! (i div 8)) OR push_bit (i mod 8) (if Bits ! i then 1 else 0)]"

text \<open>
  Neither stack test of the main loop applies: the stack is not a single filled node,
  and it does not hold three or more nodes of which the last two are filled.
\<close>

definition no_stack_op :: "merkleNode list \<Rightarrow> bool" where
  "no_stack_op s \<longleftrightarrow>
     \<not> (length s = 1 \<and> snd (s ! 0) \<noteq> None) \<and>
     \<not> (3 \<le> length s \<and> snd (s ! (length s - 2)) \<noteq> None \<and> snd (s ! (length s - 1)) \<noteq> None)"

text \<open>
  The matched leaf hashes below node \<open>pos\<close> of row \<open>height\<close>, in leaf order.
\<close>

definition sub_txids :: "Uint256 list \<Rightarrow> bool list \<Rightarrow> nat \<Rightarrow> nat \<Rightarrow> Uint256 list" where
  "sub_txids AllHashes MatchedBits height pos =
     matched_txids (take (2 ^ height) (drop (pos * 2 ^ height) AllHashes))
                   (take (2 ^ height) (drop (pos * 2 ^ height) MatchedBits))"

text \<open>
  The builder descends into node \<open>pos\<close> of row \<open>height\<close> and, there or further down,
  into a node whose two children carry the same hash.
\<close>

fun dup_below ::
  "(byte list \<Rightarrow> byte list) \<Rightarrow> Uint256 list \<Rightarrow> bool list \<Rightarrow> nat \<Rightarrow> nat \<Rightarrow> bool" where
  "dup_below Sha256D AllHashes MatchedBits 0 pos = False"
| "dup_below Sha256D AllHashes MatchedBits (Suc height) pos =
     (isParent MatchedBits (Suc height) pos \<and>
      (dup_below Sha256D AllHashes MatchedBits height (pos * 2) \<or>
       (pos * 2 + 1 < CalcTreeWidth (length AllHashes) height \<and>
        (dup_below Sha256D AllHashes MatchedBits height (pos * 2 + 1) \<or>
         CalcHash Sha256D AllHashes height (pos * 2)
           = CalcHash Sha256D AllHashes height (pos * 2 + 1)))))"


section \<open>Little-endian bytes\<close>

lemma replicate_numeral: "replicate (numeral v) x = x # replicate (numeral v - 1) x"
  by (simp add: numeral_eq_Suc)

lemma byte_of_drop:
  fixes v :: "'a::len word"
  shows "(ucast (drop_bit (8 * k) v) :: byte) = of_nat (unat v div 256 ^ k mod 256)"
proof -
  have "unat (drop_bit (8 * k) v) = unat v div 256 ^ k"
    by (simp add: unat_drop_bit_eq drop_bit_eq_div[where 'a=nat] power_mult)
  then have "unat (ucast (drop_bit (8 * k) v) :: byte) = unat v div 256 ^ k mod 256"
    by (simp add: unsigned_ucast_eq take_bit_eq_mod[where 'a=nat])
  then show ?thesis
    by (metis of_nat_unat ucast_id)
qed

lemma unat_ucast_up:
  fixes v :: "64 word"
  assumes "unat v < 2 ^ LENGTH('b::len)"
  shows "unat (ucast v :: 'b word) = unat v"
  using assms by (simp add: unsigned_ucast_eq take_bit_nat_eq_self_iff)

lemma PutUint16_le:
  "unat v < 2 ^ 16 \<Longrightarrow> PutUint16 (ucast (v::64 word)) = [le_byte v 0, le_byte v 1]"
  using byte_of_drop[of 0 "ucast v :: 16 word"] byte_of_drop[of 1 "ucast v :: 16 word"]
  by (simp add: PutUint16_def le_byte_def unat_ucast_up)

lemma PutUint32_le:
  "unat v < 2 ^ 32 \<Longrightarrow>
     PutUint32 (ucast (v::64 word)) = [le_byte v 0, le_byte v 1, le_byte v 2, le_byte v 3]"
  using byte_of_drop[of 0 "ucast v :: 32 word"] byte_of_drop[of 1 "ucast v :: 32 word"]
   byte_of_drop[of 2 "ucast v :: 32 word"] byte_of_drop[of 3 "ucast v :: 32 word"]
  by (simp add: PutUint32_def le_byte_def unat_ucast_up)

lemma PutUint64_le:
  "PutUint64 v = [le_byte v 0, le_byte v 1, le_byte v 2, le_byte v 3,
                  le_byte v 4, le_byte v 5, le_byte v 6, le_byte v 7]"
  using byte_of_drop[of 0 v] byte_of_drop[of 1 v] byte_of_drop[of 2 v] byte_of_drop[of 3 v]
    byte_of_drop[of 4 v] byte_of_drop[of 5 v] byte_of_drop[of 6 v] byte_of_drop[of 7 v]
  by (simp add: PutUint64_def le_byte_def)

lemma byte_at:
  fixes v :: "'a::len word"
  shows "bit (push_bit k (ucast (ucast (drop_bit k v) :: byte) :: 'a word)) n
     \<longleftrightarrow> k \<le> n \<and> n < k + 8 \<and> bit v n"
  by (auto simp add: bit_simps dest: bit_imp_le_length)

lemma byte_at0:
  fixes v :: "'a::len word"
  shows "bit (ucast (ucast v :: byte) :: 'a word) n \<longleftrightarrow> n < 8 \<and> bit v n"
  by (auto simp add: bit_simps dest: bit_imp_le_length)

lemma Uint16_PutUint16: "Uint16 (PutUint16 v) = v"
proof (rule bit_word_eqI)
  fix n assume "n < LENGTH(16)"
  then have "n < 16" by simp
  then show "bit (Uint16 (PutUint16 v)) n = bit v n"
    unfolding Uint16_def PutUint16_def
    by (simp add: bit_or_iff byte_at byte_at0) linarith
qed

lemma Uint32_PutUint32: "Uint32 (PutUint32 v) = v"
proof (rule bit_word_eqI)
  fix n assume "n < LENGTH(32)"
  then have "n < 32" by simp
  then show "bit (Uint32 (PutUint32 v)) n = bit v n"
    unfolding Uint32_def PutUint32_def
    by (simp add: bit_or_iff byte_at byte_at0) linarith
qed

lemma Uint64_PutUint64: "Uint64 (PutUint64 v) = v"
proof (rule bit_word_eqI)
  fix n assume "n < LENGTH(64)"
  then have "n < 64" by simp
  then show "bit (Uint64 (PutUint64 v)) n = bit v n"
    unfolding Uint64_def PutUint64_def
    by (simp add: bit_or_iff byte_at byte_at0) linarith
qed

lemma ucast_narrow:
  fixes v :: "64 word"
  assumes "unat v < 2 ^ LENGTH('b::len)"
  shows "(ucast (ucast v :: 'b word) :: 64 word) = v"
  apply (rule word_unat_eq_iff[THEN iffD2])
  using assms apply (simp add: unsigned_ucast_eq unsigned_take_bit_eq take_bit_nat_eq_self_iff)
  done

section \<open>VarUint\<close>

lemma Read_exact:
  "length bs = n \<Longrightarrow> 0 < n \<Longrightarrow> Read (bs @ rest) n = (bs, n, None, rest)"
  by (auto simp add: Read_def)

lemma length_PutUint [simp]:
  "length (PutUint16 a) = 2" "length (PutUint32 b) = 4" "length (PutUint64 c) = 8"
  by (simp_all add: PutUint16_def PutUint32_def PutUint64_def)

lemma Read_one: "Read (b # rest) (Suc 0) = ([b], 1, None, rest)"
  by (simp add: Read_def)

lemma WriteVarUint_cases:
  "WriteVarUint w v =
     (if unat v < 0xFD then w @ [ucast v]
      else if unat v < 2 ^ 16 then w @ 0xFD # PutUint16 (ucast v)
      else if unat v < 2 ^ 32 then w @ 0xFE # PutUint32 (ucast v)
      else w @ 0xFF # PutUint64 v)"
  by (simp add: WriteVarUint_def word_less_nat_alt word_le_nat_alt)

lemma first_byte_small:
  assumes "unat (v::64 word) < 0xFD"
  shows "(ucast v :: byte) \<noteq> 0xFD" "(ucast v :: byte) \<noteq> 0xFE" "(ucast v :: byte) \<noteq> 0xFF"
    "(ucast (ucast v :: byte) :: 64 word) = v"
proof -
  from assms have u: "unat (ucast v :: byte) = unat v"
    by (simp add: unat_ucast_up)
  with assms show "(ucast v :: byte) \<noteq> 0xFD" "(ucast v :: byte) \<noteq> 0xFE"
      "(ucast v :: byte) \<noteq> 0xFF"
    by (auto simp add: word_unat_eq_iff)
  from assms show "(ucast (ucast v :: byte) :: 64 word) = v"
    by (intro ucast_narrow) simp
qed

lemma max_ok:
  "maxint = 0 \<or> v \<le> maxint \<Longrightarrow> \<not> (if maxint = 0 then MaxUint64 else maxint) < (v::64 word)"
  by (auto simp add: MaxUint64_def word_less_nat_alt word_le_nat_alt)
     (use unsigned_less[of v, where 'a=nat] in simp)

lemma ReadVarUint_WriteVarUint:
  assumes "maxint = 0 \<or> v \<le> maxint"
  shows "ReadVarUint (WriteVarUint [] v @ rest) maxint = Inr (v, rest)"
proof -
  note le = max_ok[OF assms]
  consider (a) "unat v < 0xFD" | (b) "\<not> unat v < 0xFD" "unat v < 2 ^ 16"
    | (c) "\<not> unat v < 2 ^ 16" "unat v < 2 ^ 32" | (d) "\<not> unat v < 2 ^ 32"
    by linarith
  then show ?thesis
  proof cases
    case a
    then show ?thesis using le first_byte_small[OF a]
      by (simp add: WriteVarUint_cases ReadVarUint_def Read_one)
  next
    case b
    then show ?thesis using le Read_exact[of "PutUint16 (ucast v)" 2 rest]
      by (simp add: WriteVarUint_cases ReadVarUint_def Read_one Uint16_PutUint16 ucast_narrow)
  next
    case c
    then have "\<not> unat v < 0xFD" by simp
    with c show ?thesis using le Read_exact[of "PutUint32 (ucast v)" 4 rest]
      by (simp add: WriteVarUint_cases ReadVarUint_def Read_one Uint32_PutUint32 ucast_narrow)
  next
    case d
    then have "\<not> unat v < 0xFD" "\<not> unat v < 2 ^ 16" by simp_all
    with d show ?thesis using le Read_exact[of "PutUint64 v" 8 rest]
      by (simp add: WriteVarUint_cases ReadVarUint_def Read_one Uint64_PutUint64)
  qed
qed

lemma WriteVarUint_spec: "WriteVarUint w v = w @ spec_VarUint v"
proof -
  have b0: "(ucast v :: byte) = le_byte v 0"
    using byte_of_drop[of 0 v] by (simp add: le_byte_def)
  show ?thesis
    by (simp add: WriteVarUint_cases spec_VarUint_def PutUint16_le PutUint32_le PutUint64_le b0)
qed

text \<open>
  C6. For every 64-bit value, WriteVarUint appends exactly the spec's form of the value
  (the value itself in one byte below 0xFD; 0xFD, 0xFE or 0xFF followed by the value in
  2, 4 or 8 little-endian bytes, the shortest that holds it), and ReadVarUint reads that
  form back to the value and leaves the bytes after it, for every limit that admits the
  value.
\<close>

theorem VarUint_forms_and_roundtrip:
  "WriteVarUint w v = w @ spec_VarUint v \<and>
   (maxint = 0 \<or> v \<le> maxint \<longrightarrow> ReadVarUint (spec_VarUint v @ rest) maxint = Inr (v, rest))"
  using ReadVarUint_WriteVarUint[of maxint v rest] WriteVarUint_spec[of "[]" v]
    WriteVarUint_spec[of w v]
  by simp

text \<open>The value 0x1234 is written as FD 34 12 and read back.\<close>

theorem VarUint_forms_and_roundtrip_witness:
  "WriteVarUint [] 0x1234 = [0xFD, 0x34, 0x12] \<and>
   ReadVarUint ([0xFD, 0x34, 0x12] @ [7]) 0 = Inr (0x1234, [7])"
  using VarUint_forms_and_roundtrip[of "[]" "0x1234" 0 "[7]"]
  by (simp add: spec_VarUint_def le_byte_def)

text \<open>
  C7 as stated fails: the value 1, below 0xFD, in the three-byte form FD 01 00 is read
  without an error.
\<close>

theorem noncanonical_counterexample:
  "ReadVarUint [0xFD, 0x01, 0x00] 0 = Inr (1, []) \<and> (1 :: 64 word) < 0xFD"
  by (simp add: ReadVarUint_def Read_def Uint16_def MaxUint64_def)

text \<open>
  C7, amended. ReadVarUint does not ask for the shortest form: after the prefix 0xFD,
  0xFE or 0xFF it returns the value of the following 2, 4 or 8 little-endian bytes,
  however small that value is, as long as the limit admits it.
\<close>

theorem ReadVarUint_accepts_long_forms:
  "(maxint = 0 \<or> ucast x \<le> maxint \<longrightarrow>
      ReadVarUint (0xFD # PutUint16 x @ rest) maxint = Inr (ucast x, rest)) \<and>
   (maxint = 0 \<or> ucast y \<le> maxint \<longrightarrow>
      ReadVarUint (0xFE # PutUint32 y @ rest) maxint = Inr (ucast y, rest)) \<and>
   (maxint = 0 \<or> z \<le> maxint \<longrightarrow>
      ReadVarUint (0xFF # PutUint64 z @ rest) maxint = Inr (z, rest))"
  using Read_exact[of "PutUint16 x" 2 rest] Read_exact[of "PutUint32 y" 4 rest]
    Read_exact[of "PutUint64 z" 8 rest]
    max_ok[of maxint "ucast x"] max_ok[of maxint "ucast y"] max_ok[of maxint z]
  by (simp add: ReadVarUint_def Read_one Uint16_PutUint16 Uint32_PutUint32 Uint64_PutUint64)

theorem ReadVarUint_accepts_long_forms_witness:
  "ReadVarUint (0xFD # PutUint16 1 @ []) 0 = Inr (1, []) \<and>
   ReadVarUint (0xFE # PutUint32 0x1234 @ []) 0x1234 = Inr (0x1234, []) \<and>
   ReadVarUint (0xFF # PutUint64 0 @ [9]) 0 = Inr (0, [9])"
  using ReadVarUint_accepts_long_forms[where maxint = 0 and x = 1 and rest = "[]"]
    ReadVarUint_accepts_long_forms[where maxint = "0x1234" and y = "0x1234" and rest = "[]"]
    ReadVarUint_accepts_long_forms[where maxint = 0 and z = 0 and rest = "[9]"]
  by simp

section \<open>Short reads\<close>

lemma ReadVarUint_raw:
  "ReadVarUint rd maxint =
     (case raw_VarUint rd of Inl e \<Rightarrow> Inl e
      | Inr (res, r') \<Rightarrow>
          if (if maxint = 0 then MaxUint64 else maxint) < res then Inl ErrRange
          else Inr (res, r'))"
  unfolding ReadVarUint_def raw_VarUint_def Let_def
  by (simp split: prod.split option.split)

lemma raw_VarUint_err: "raw_VarUint rd = Inl e \<Longrightarrow> e = EOF"
  unfolding raw_VarUint_def Read_def
  by (simp split: if_splits)

lemma ReadVarUint_range:
  assumes "ReadVarUint rd 0 = Inr (v, r')"
  shows "ReadVarUint rd maxint =
           (if maxint \<noteq> 0 \<and> maxint < v then Inl ErrRange else Inr (v, r'))"
proof -
  have m: "\<not> MaxUint64 < v"
    using max_ok[of 0 v] by simp
  from assms have "raw_VarUint rd = Inr (v, r')"
    by (simp add: ReadVarUint_raw split: sum.splits prod.splits if_splits)
  then show ?thesis using m
    by (simp add: ReadVarUint_raw)
qed

lemma ReadVarUint_never_ErrEof: "ReadVarUint rd maxint \<noteq> Inl ErrEof"
proof
  assume "ReadVarUint rd maxint = Inl ErrEof"
  then have "raw_VarUint rd = Inl ErrEof"
    by (simp add: ReadVarUint_raw split: sum.splits prod.splits if_splits)
  then show False using raw_VarUint_err by blast
qed

text \<open>
  What the primitives do on a short read, at concrete inputs: a positive byte count is
  success, and the bytes that were not there read as zero. ReadVarUint and ReadVarBytes
  do the same with a payload that is cut short.
\<close>

lemma short_reads_zero_padded:
  "ReadUint32 [0x01, 0x02] = Inr (0x0201, []) \<and>
   ReadUint64 [0x01] = Inr (1, []) \<and>
   ReadBytes [0x01, 0x02] 4 = Inr ([0x01, 0x02, 0, 0], []) \<and>
   ReadVarUint [0xFE, 0x01] 0 = Inr (1, []) \<and>
   ReadVarBytes [0x03, 0x09] = Inr ([0x09, 0, 0], [])"
  by (simp add: ReadUint32_def ReadUint64_def ReadBytes_def ReadVarBytes_def ReadVarUint_def
      byteXReader_def maxAlloc_def Read_def Uint32_def Uint64_def MaxUint64_def
      replicate_numeral)

text \<open>
  C8. The claim is what the package says of itself: ErrEof is "got EOF, can not get the
  next byte", and the sibling path \<open>binary.Read\<close> of ReadElement fails on a short
  read. The fixed-width reads test \<open>n <= 0\<close> where the width is meant. ReadUint16
  asks for two bytes; the reader has the single byte \<open>0x01\<close>; the result is the value
  1 and no error, where the claim has ErrEof.
\<close>

theorem ReadUint16_short_read:
  "ReadUint16 [0x01] = Inr (1, [])"
  by (simp add: ReadUint16_def Read_def Uint16_def)


section \<open>Message header\<close>

lemma IndexByte_neg: "IndexByte bs c < 0 \<longleftrightarrow> c \<notin> set bs"
  by (induction bs) (auto simp add: Let_def)

lemma IndexByte_takeWhile:
  "c \<in> set bs \<Longrightarrow> IndexByte bs c = int (length (takeWhile (\<lambda>b. b \<noteq> c) bs))"
  by (induction bs) (auto simp add: Let_def IndexByte_neg)

lemma IndexByte_lt: "c \<in> set bs \<Longrightarrow> IndexByte bs c < int (length bs)"
  by (induction bs) (auto simp add: Let_def IndexByte_neg)

lemma take_IndexByte:
  "c \<in> set bs \<Longrightarrow> take (nat (IndexByte bs c)) bs = takeWhile (\<lambda>b. b \<noteq> c) bs"
  by (simp add: IndexByte_takeWhile takeWhile_eq_take[symmetric])

lemma GetCMD_nul:
  "0 \<in> set (CMD h) \<Longrightarrow> GetCMD h = Inr (takeWhile (\<lambda>b. b \<noteq> 0) (CMD h))"
  using IndexByte_lt[of 0 "CMD h"] IndexByte_neg[of "CMD h" 0]
  by (simp add: GetCMD_def Let_def take_IndexByte)

lemma GetCMD_no_nul:
  "0 \<notin> set (CMD h) \<Longrightarrow> GetCMD h = Inl PanicSliceBounds"
  using IndexByte_neg[of "CMD h" 0]
  by (simp add: GetCMD_def Let_def)

lemma Deserialize_CMD:
  "Header_Deserialize buf = Inr h \<Longrightarrow> 0 \<in> set (CMD h)"
  using IndexByte_neg[of "take 12 (drop 4 buf)" 0]
  by (auto simp add: Header_Deserialize_def Let_def drop_take split: if_splits)

text \<open>
  C10. GetCMD returns a string exactly for the headers whose command field holds a NUL
  byte, and then the bytes before the first NUL. For a field without a NUL byte the
  index is -1 and the slice expression panics; NewHeader builds such a header from a
  command of 12 bytes none of which is NUL. A header that Header.Deserialize has
  accepted holds a NUL byte in its command field, so GetCMD returns on it.
\<close>

theorem GetCMD_total_iff_nul:
  "(0 \<in> set (CMD h) \<longrightarrow> GetCMD h = Inr (takeWhile (\<lambda>b. b \<noteq> 0) (CMD h))) \<and>
   (0 \<notin> set (CMD h) \<longrightarrow> GetCMD h = Inl PanicSliceBounds) \<and>
   (length cmd = 12 \<and> 0 \<notin> set cmd \<and> 4 \<le> length checksum \<longrightarrow>
      NewHeader magic cmd checksum len =
        Inr \<lparr>Magic = magic, CMD = cmd, Length = word_of_int len, Checksum = take 4 checksum\<rparr> \<and>
      GetCMD \<lparr>Magic = magic, CMD = cmd, Length = word_of_int len, Checksum = take 4 checksum\<rparr>
        = Inl PanicSliceBounds) \<and>
   (Header_Deserialize buf = Inr h \<longrightarrow> GetCMD h = Inr (takeWhile (\<lambda>b. b \<noteq> 0) (CMD h)))"
proof -
  have n: "length cmd = 12 \<and> 0 \<notin> set cmd \<and> 4 \<le> length checksum \<longrightarrow>
      NewHeader magic cmd checksum len =
        Inr \<lparr>Magic = magic, CMD = cmd, Length = word_of_int len, Checksum = take 4 checksum\<rparr> \<and>
      GetCMD \<lparr>Magic = magic, CMD = cmd, Length = word_of_int len, Checksum = take 4 checksum\<rparr>
        = Inl PanicSliceBounds"
    by (simp add: NewHeader_def GetCMD_no_nul)
  show ?thesis
    using n GetCMD_nul[of h] GetCMD_no_nul[of h] Deserialize_CMD[of buf h] by blast
qed

text \<open>
  The command "ping" is returned; the 12-byte command "getaddresses" gives a header
  on which GetCMD panics; a deserialized "tx" header returns "tx".
\<close>

theorem GetCMD_total_iff_nul_witness:
  "GetCMD \<lparr>Magic = 0, CMD = [0x70, 0x69, 0x6e, 0x67, 0, 0, 0, 0, 0, 0, 0, 0], Length = 0,
           Checksum = [0, 0, 0, 0]\<rparr> = Inr [0x70, 0x69, 0x6e, 0x67] \<and>
   NewHeader 7 [0x67, 0x65, 0x74, 0x61, 0x64, 0x64, 0x72, 0x65, 0x73, 0x73, 0x65, 0x73]
       [1, 2, 3, 4, 5] 0 =
     Inr \<lparr>Magic = 7,
          CMD = [0x67, 0x65, 0x74, 0x61, 0x64, 0x64, 0x72, 0x65, 0x73, 0x73, 0x65, 0x73],
          Length = 0, Checksum = [1, 2, 3, 4]\<rparr> \<and>
   GetCMD \<lparr>Magic = 7,
           CMD = [0x67, 0x65, 0x74, 0x61, 0x64, 0x64, 0x72, 0x65, 0x73, 0x73, 0x65, 0x73],
           Length = 0, Checksum = [1, 2, 3, 4]\<rparr> = Inl PanicSliceBounds \<and>
   GetCMD \<lparr>Magic = 0, CMD = [0x74, 0x78, 0, 0, 0, 0, 0, 0, 0, 0, 0, 0], Length = 0,
           Checksum = [9, 9, 9, 9]\<rparr> = Inr [0x74, 0x78]"
proof -
  have d: "Header_Deserialize
      [0, 0, 0, 0,  0x74, 0x78, 0, 0, 0, 0, 0, 0, 0, 0, 0, 0,  0, 0, 0, 0,  9, 9, 9, 9]
     = Inr \<lparr>Magic = 0, CMD = [0x74, 0x78, 0, 0, 0, 0, 0, 0, 0, 0, 0, 0], Length = 0,
           Checksum = [9, 9, 9, 9]\<rparr>"
    by (simp add: Header_Deserialize_def Uint32_def Let_def)
  show ?thesis
    using
      GetCMD_total_iff_nul[where
        h = "\<lparr>Magic = 0, CMD = [0x70, 0x69, 0x6e, 0x67, 0, 0, 0, 0, 0, 0, 0, 0], Length = 0,
              Checksum = [0, 0, 0, 0]\<rparr>"
        and cmd = "[0x67, 0x65, 0x74, 0x61, 0x64, 0x64, 0x72, 0x65, 0x73, 0x73, 0x65, 0x73]"
        and checksum = "[1, 2, 3, 4, 5]" and magic = 7 and len = 0]
      GetCMD_total_iff_nul[where
        h = "\<lparr>Magic = 0, CMD = [0x74, 0x78, 0, 0, 0, 0, 0, 0, 0, 0, 0, 0], Length = 0,
              Checksum = [9, 9, 9, 9]\<rparr>"
        and buf = "[0, 0, 0, 0,  0x74, 0x78, 0, 0, 0, 0, 0, 0, 0, 0, 0, 0,  0, 0, 0, 0,
                    9, 9, 9, 9]"] d
    by simp
qed

text \<open>
  C5 as stated fails: a header whose length field is \<open>0xFFFFFFFF\<close>, far above 32 MiB,
  and whose command field has the byte \<open>0x62\<close> after its first NUL is deserialized,
  and Verify accepts it with a body of its checksum.
\<close>

theorem framing_counterexample:
  "Header_Deserialize
     [0, 0, 0, 0,  0x61, 0, 0x62, 0, 0, 0, 0, 0, 0, 0, 0, 0,  0xFF, 0xFF, 0xFF, 0xFF,  1, 1, 1, 1]
     = Inr \<lparr>Magic = 0, CMD = [0x61, 0, 0x62, 0, 0, 0, 0, 0, 0, 0, 0, 0],
            Length = 0xFFFFFFFF, Checksum = [1, 1, 1, 1]\<rparr> \<and>
   Header_Verify 0 sample_hash
     \<lparr>Magic = 0, CMD = [0x61, 0, 0x62, 0, 0, 0, 0, 0, 0, 0, 0, 0],
      Length = 0xFFFFFFFF, Checksum = [1, 1, 1, 1]\<rparr> (replicate 8 0) = None"
  by (simp add: Header_Deserialize_def Header_Verify_def Uint32_def sample_hash_def Let_def
      replicate_numeral)

lemma Deserialize_cases:
  assumes "24 \<le> length buf"
  shows "Header_Deserialize buf =
     (if 0 \<notin> set (take 12 (drop 4 buf)) then Inl UnexpectedLengthOfCMD
      else Inr \<lparr>Magic = Uint32 (take 4 buf), CMD = take 12 (drop 4 buf),
                Length = Uint32 (take 4 (drop 16 buf)), Checksum = take 4 (drop 20 buf)\<rparr>)"
  using assms IndexByte_neg[of "take 12 (drop 4 buf)" 0] IndexByte_lt[of 0 "take 12 (drop 4 buf)"]
  by (auto simp add: Header_Deserialize_def Let_def drop_take)

text \<open>
  C5, amended. Header.Verify rejects a message exactly when the header's magic differs
  from the configured magic or its checksum field differs from the first four bytes of
  the double SHA-256 of the body. Header.Deserialize, on 24 bytes or more, rejects
  exactly when the 12-byte command field has no NUL byte; otherwise it returns the four
  fields as they are in the bytes. Neither looks at the length of the body or at the
  bytes after the first NUL of the command.
\<close>

theorem framing_rejects_iff:
  "(Header_Verify magic Sha256D h body \<noteq> None \<longleftrightarrow>
      Magic h \<noteq> magic \<or> Checksum h \<noteq> take 4 (Sha256D body)) \<and>
   (24 \<le> length buf \<and> 0 \<notin> set (take 12 (drop 4 buf)) \<longrightarrow>
      Header_Deserialize buf = Inl UnexpectedLengthOfCMD) \<and>
   (24 \<le> length buf \<and> 0 \<in> set (take 12 (drop 4 buf)) \<longrightarrow>
      Header_Deserialize buf =
        Inr \<lparr>Magic = Uint32 (take 4 buf), CMD = take 12 (drop 4 buf),
             Length = Uint32 (take 4 (drop 16 buf)), Checksum = take 4 (drop 20 buf)\<rparr>)"
  using Deserialize_cases[of buf]
  by (simp add: Header_Verify_def Let_def)

theorem framing_rejects_iff_witness:
  "Header_Verify 1 sample_hash
     \<lparr>Magic = 0, CMD = [0x61, 0, 0, 0, 0, 0, 0, 0, 0, 0, 0, 0], Length = 8,
      Checksum = [1, 1, 1, 1]\<rparr> (replicate 8 0) \<noteq> None \<and>
   Header_Deserialize (replicate 24 1) = Inl UnexpectedLengthOfCMD \<and>
   Header_Deserialize (replicate 24 0) =
     Inr \<lparr>Magic = 0, CMD = replicate 12 0, Length = 0, Checksum = replicate 4 0\<rparr>"
  using
    framing_rejects_iff[where magic = 1 and Sha256D = sample_hash
      and h = "\<lparr>Magic = 0, CMD = [0x61, 0, 0, 0, 0, 0, 0, 0, 0, 0, 0, 0], Length = 8,
                Checksum = [1, 1, 1, 1]\<rparr>"
      and body = "replicate 8 0" and buf = "replicate 24 1"]
    framing_rejects_iff[where buf = "replicate 24 0"]
  by (simp add: Uint32_def replicate_numeral)

section \<open>Round trips\<close>

lemma unat_of_nat_len: "n < 2 ^ 64 \<Longrightarrow> unat (of_nat n :: 64 word) = n"
  by (simp add: unat_of_nat)

lemma WriteVarUint_append: "WriteVarUint w v = w @ WriteVarUint [] v"
  by (simp add: WriteVarUint_def)

lemma ReadVarBytes_WriteVarBytes:
  assumes "length bs \<le> maxAlloc" and "bs \<noteq> [] \<or> rest \<noteq> []"
  shows "ReadVarBytes (WriteVarBytes [] bs @ rest) = Inr (bs, rest)"
proof -
  have l: "length bs < 2 ^ 64" using assms(1) by (simp add: maxAlloc_def)
  have u: "ReadVarUint (WriteVarUint [] (of_nat (length bs)) @ bs @ rest) 0
            = Inr (of_nat (length bs), bs @ rest)"
    by (rule ReadVarUint_WriteVarUint) simp
  have x: "byteXReader (bs @ rest) (of_nat (length bs)) = (bs, None, rest)"
    using assms l by (auto simp add: byteXReader_def Read_def unat_of_nat_len)
  show ?thesis
    using u x by (simp add: ReadVarBytes_def WriteVarBytes_def)
qed

lemma WriteVarBytes_append: "WriteVarBytes w bs = w @ WriteVarBytes [] bs"
  using WriteVarUint_append[of w] by (simp add: WriteVarBytes_def)

lemma ReadFull_exact: "length bs = n \<Longrightarrow> ReadFull (bs @ rest) n = Inr (bs, rest)"
  by (simp add: ReadFull_def)

lemma OutPoint_roundtrip:
  assumes "length (TxID op) = 32"
  shows "OutPoint_Deserialize op0 (OutPoint_Serialize op [] @ rest) = Inr (op, rest)"
  using assms ReadFull_exact[of "TxID op" 32 "PutUint16 (Index op) @ rest"]
    ReadFull_exact[of "PutUint16 (Index op)" 2 rest]
  by (simp add: OutPoint_Deserialize_def OutPoint_Serialize_def WriteElements_def
      Uint256_Serialize_def Uint256_Deserialize_def binary_Read_def Uint16_PutUint16)

lemma DataReq_roundtrip:
  assumes "length (Hash msg) = 32"
  shows "DataReq_Deserialize msg0 (DataReq_Serialize msg) = Inr msg"
  using assms ReadFull_exact[of "Hash msg" 32 "[]"]
    ReadFull_exact[of "[Type msg]" 1 "Hash msg"]
  by (simp add: DataReq_Deserialize_def DataReq_Serialize_def WriteElements_def
      Uint256_Serialize_def Uint256_Deserialize_def binary_Read_def)

lemma FunctionCode_roundtrip:
  assumes "ofB (toB (ParameterTypes fc)) = ParameterTypes fc"
    and "length (toB (ParameterTypes fc)) \<le> maxAlloc" and "length (Code fc) \<le> maxAlloc"
    and "Code fc \<noteq> [] \<or> rest \<noteq> []"
  shows "FunctionCode_Deserialize ofB fc0 (FunctionCode_Serialize toB fc [] @ rest)
           = Inr (fc0\<lparr>ParameterTypes := ParameterTypes fc, Code := Code fc\<rparr>, rest)"
proof -
  have ne: "WriteVarBytes [] (Code fc) \<noteq> []"
    by (simp add: WriteVarBytes_def WriteVarUint_def)
  have a: "ReadVarBytes
       (WriteVarBytes [] (toB (ParameterTypes fc)) @ (WriteVarBytes [] (Code fc) @ rest))
       = Inr (toB (ParameterTypes fc), WriteVarBytes [] (Code fc) @ rest)"
    using assms(2) ne by (intro ReadVarBytes_WriteVarBytes) auto
  have b: "ReadVarBytes (WriteVarBytes [] (Code fc) @ rest) = Inr (Code fc, rest)"
    using assms(3,4) by (intro ReadVarBytes_WriteVarBytes) auto
  have s: "FunctionCode_Serialize toB fc [] @ rest
      = WriteVarBytes [] (toB (ParameterTypes fc)) @ (WriteVarBytes [] (Code fc) @ rest)"
    using WriteVarBytes_append[of "WriteVarBytes [] (toB (ParameterTypes fc))" "Code fc"]
    by (simp add: FunctionCode_Serialize_def)
  show ?thesis
    unfolding s FunctionCode_Deserialize_def using a b assms(1) by simp
qed

text \<open>
  C4 as stated fails: a FunctionCode with a return type is serialized and read back
  into a new FunctionCode, and the result has no return type.
\<close>

theorem roundtrip_counterexample:
  "FunctionCode_Deserialize id new_FunctionCode
     (FunctionCode_Serialize id \<lparr>Code = [1], ParameterTypes = [], ReturnTypes = [7 :: byte]\<rparr> [])
     = Inr (\<lparr>Code = [1], ParameterTypes = [], ReturnTypes = []\<rparr>, [])"
  by (simp add: FunctionCode_Deserialize_def FunctionCode_Serialize_def new_FunctionCode_def
      WriteVarBytes_def WriteVarUint_def ReadVarBytes_def ReadVarUint_def Read_def
      byteXReader_def maxAlloc_def MaxUint64_def)

text \<open>
  A FunctionCode with no code, read back from exactly its own bytes: the reader is at
  its end when the empty code is asked for, and the read fails.
\<close>

lemma empty_code_at_end:
  "FunctionCode_Deserialize id new_FunctionCode
     (FunctionCode_Serialize id \<lparr>Code = [], ParameterTypes = [], ReturnTypes = []\<rparr> [])
     = Inl EOF"
  by (simp add: FunctionCode_Deserialize_def FunctionCode_Serialize_def new_FunctionCode_def
      WriteVarBytes_def WriteVarUint_def ReadVarBytes_def ReadVarUint_def Read_def
      byteXReader_def maxAlloc_def MaxUint64_def)

text \<open>
  C4, amended. Deserializing the bytes that Serialize wrote gives back every field that
  is serialized, and leaves the bytes that follow. For an OutPoint and a DataReq (with a
  hash of 32 bytes) those are all fields, whatever the receiver held. For a FunctionCode
  they are the parameter types and the code; the return types are not written, and the
  receiver keeps its own. The FunctionCode case needs the two conversions between
  parameter types and bytes to be inverse on the value, lengths a byte slice can have
  (at most \<open>maxAlloc\<close>), and either a code that is not empty or input after it.
\<close>

theorem serialized_fields_roundtrip:
  "(length (TxID op) = 32 \<longrightarrow>
      OutPoint_Deserialize op0 (OutPoint_Serialize op [] @ rest) = Inr (op, rest)) \<and>
   (length (Hash msg) = 32 \<longrightarrow> DataReq_Deserialize msg0 (DataReq_Serialize msg) = Inr msg) \<and>
   (ofB (toB (ParameterTypes fc)) = ParameterTypes fc \<and>
    length (toB (ParameterTypes fc)) \<le> maxAlloc \<and> length (Code fc) \<le> maxAlloc \<and>
    (Code fc \<noteq> [] \<or> rest \<noteq> []) \<longrightarrow>
      FunctionCode_Deserialize ofB fc0 (FunctionCode_Serialize toB fc [] @ rest)
        = Inr (fc0\<lparr>ParameterTypes := ParameterTypes fc, Code := Code fc\<rparr>, rest))"
  using OutPoint_roundtrip[of op op0 rest] DataReq_roundtrip[of msg msg0]
    FunctionCode_roundtrip[of ofB toB fc rest fc0]
  by blast

theorem serialized_fields_roundtrip_witness:
  "OutPoint_Deserialize new_OutPoint
     (OutPoint_Serialize \<lparr>TxID = replicate 32 5, Index = 0x0102\<rparr> [] @ [])
     = Inr (\<lparr>TxID = replicate 32 5, Index = 0x0102\<rparr>, []) \<and>
   DataReq_Deserialize \<lparr>Type = 0, Hash = []\<rparr>
     (DataReq_Serialize \<lparr>Type = 3, Hash = replicate 32 5\<rparr>)
     = Inr \<lparr>Type = 3, Hash = replicate 32 5\<rparr> \<and>
   FunctionCode_Deserialize id new_FunctionCode
     (FunctionCode_Serialize id \<lparr>Code = [1, 2], ParameterTypes = [4 :: byte], ReturnTypes = [7]\<rparr> []
        @ [])
     = Inr (\<lparr>Code = [1, 2], ParameterTypes = [4], ReturnTypes = []\<rparr>, [])"
  using
    serialized_fields_roundtrip[where op = "\<lparr>TxID = replicate 32 5, Index = 0x0102\<rparr>"
      and ?op0.0 = new_OutPoint and rest = "[]"
      and msg = "\<lparr>Type = 3, Hash = replicate 32 5\<rparr>" and ?msg0.0 = "\<lparr>Type = 0, Hash = []\<rparr>"
      and fc = "\<lparr>Code = [1, 2], ParameterTypes = [4 :: byte], ReturnTypes = [7]\<rparr>"
      and ofB = id and toB = id and ?fc0.0 = new_FunctionCode]
  by (simp add: new_FunctionCode_def maxAlloc_def)

section \<open>The guards of CheckMerkleBlock\<close>

text \<open>
  C9 as stated fails: a merkle block with no flag byte and no transaction is answered
  with "No transactions in merkleblock", not with "No flag bits".
\<close>

theorem guards_counterexample:
  "CheckMerkleBlock sample_hash
     \<lparr>BlockHeader = \<lparr>MerkleRoot = []\<rparr>, Transactions = 0, Hashes = [], Flags = []\<rparr>
     = Some ([], Some NoTransactions)"
  by (simp add: CheckMerkleBlock_def)

text \<open>
  C9, amended. A merkle block with \<open>Transactions = 0\<close> is answered with the error
  "No transactions in merkleblock" and no txid. A merkle block with an empty \<open>Flags\<close>
  and \<open>Transactions\<close> other than 0 is answered with "No flag bits" and no txid. Both
  hold for every list of hashes: CheckMerkleBlock returns before it reads one.
\<close>

theorem CheckMerkleBlock_guards:
  "(Transactions m = 0 \<longrightarrow> CheckMerkleBlock Sha256D m = Some ([], Some NoTransactions)) \<and>
   (Transactions m \<noteq> 0 \<and> Flags m = [] \<longrightarrow>
      CheckMerkleBlock Sha256D m = Some ([], Some NoFlagBits))"
  by (simp add: CheckMerkleBlock_def)

theorem CheckMerkleBlock_guards_witness:
  "CheckMerkleBlock sample_hash
     \<lparr>BlockHeader = \<lparr>MerkleRoot = [1]\<rparr>, Transactions = 0, Hashes = [Some [1]], Flags = [1]\<rparr>
     = Some ([], Some NoTransactions) \<and>
   CheckMerkleBlock sample_hash
     \<lparr>BlockHeader = \<lparr>MerkleRoot = [1]\<rparr>, Transactions = 1, Hashes = [Some [1]], Flags = []\<rparr>
     = Some ([], Some NoFlagBits)"
  using
    CheckMerkleBlock_guards[where Sha256D = sample_hash and
      m = "\<lparr>BlockHeader = \<lparr>MerkleRoot = [1]\<rparr>, Transactions = 0, Hashes = [Some [1]],
            Flags = [1]\<rparr>"]
    CheckMerkleBlock_guards[where Sha256D = sample_hash and
      m = "\<lparr>BlockHeader = \<lparr>MerkleRoot = [1]\<rparr>, Transactions = 1, Hashes = [Some [1]],
            Flags = []\<rparr>"]
  by simp


section \<open>Bit operations on positions\<close>

lemma nat_not_bit: "x < 2 ^ n \<Longrightarrow> \<not> bit (x::nat) n"
  by (simp add: bit_iff_odd)

lemma nat_and_pow_lo: "x < 2 ^ n \<Longrightarrow> x AND 2 ^ n = (0 ::nat)"
  by (simp add: and_exp_eq_0_iff_not_bit nat_not_bit)

lemma nat_or_pow: "x < 2 ^ n \<Longrightarrow> (x::nat) OR 2 ^ n = 2 ^ n + x"
  using disjunctive_add_eq_or[of x "2 ^ n"] by (simp add: nat_and_pow_lo)

lemma nat_xor_pow: 
  assumes "x < 2 ^ n" shows "(2 ^ n + x) XOR 2 ^ n = (x::nat)"
proof -
  have "2 ^ n + x = x XOR 2 ^ n"
    using disjunctive_add_eq_xor[of x "2 ^ n"] assms by (simp add: nat_and_pow_lo)
  then show ?thesis by (simp add: xor.assoc)
qed

lemma nat_bit_hi: "x < 2 ^ n \<Longrightarrow> bit (2 ^ n + x :: nat) n"
proof -
  assume "x < 2 ^ n"
  then have "(2 ^ n + x) div 2 ^ n = 1"
    by (simp add: div_add_self1)
  then show ?thesis by (simp add: bit_iff_odd)
qed

lemma w_unat: "x < 2 ^ 32 \<Longrightarrow> unat (of_nat x :: 32 word) = x"
  by (simp add: unat_of_nat)

lemma w_or: "(of_nat x :: 32 word) OR of_nat y = of_nat (x OR y)"
  by (simp add: of_nat_or_eq)
lemma w_and: "(of_nat x :: 32 word) AND of_nat y = of_nat (x AND y)"
  by (simp add: of_nat_and_eq)
lemma w_xor: "(of_nat x :: 32 word) XOR of_nat y = of_nat (x XOR y)"
  by (simp add: of_nat_xor_eq)
lemma w_push: "push_bit n (of_nat x :: 32 word) = of_nat (push_bit n x)"
  by (simp add: push_bit_of_nat)
lemma w_drop: 
  assumes "x < 2 ^ 32" shows "drop_bit n (of_nat x :: 32 word) = of_nat (x div 2 ^ n)"
proof -
  have "unat (drop_bit n (of_nat x :: 32 word)) = x div 2 ^ n"
    using assms by (simp add: unat_drop_bit_eq w_unat drop_bit_eq_div[where 'a=nat])
  then show ?thesis by (metis of_nat_unat ucast_id)
qed
lemma w_less: "x < 2 ^ 32 \<Longrightarrow> y < 2 ^ 32 \<Longrightarrow> (of_nat x :: 32 word) < of_nat y \<longleftrightarrow> x < y"
  by (simp add: word_of_nat_less_iff take_bit_nat_eq_self)
lemma w_le: "x < 2 ^ 32 \<Longrightarrow> y < 2 ^ 32 \<Longrightarrow> (of_nat x :: 32 word) \<le> of_nat y \<longleftrightarrow> x \<le> y"
  by (simp add: word_of_nat_less_eq_iff take_bit_nat_eq_self)
lemma w_eq: "x < 2 ^ 32 \<Longrightarrow> y < 2 ^ 32 \<Longrightarrow> (of_nat x :: 32 word) = of_nat y \<longleftrightarrow> x = y"
  by (simp add: word_of_nat_eq_iff take_bit_nat_eq_self)
lemma w_sub: "y \<le> x \<Longrightarrow> (of_nat x :: 32 word) - of_nat y = of_nat (x - y)"
  by simp
lemma w_pow: "(2 ^ n :: 32 word) = of_nat (2 ^ n)"
  by simp
lemma w_bit: "n < 32 \<Longrightarrow> bit (of_nat x :: 32 word) n \<longleftrightarrow> bit x n"
  by (simp add: bit_simps)


section \<open>The numbering of the tree\<close>

lemma twoA_le_X: 
  assumes "1 \<le> k" "k \<le> d" shows "2 * (2::nat) ^ (d - k) \<le> 2 ^ d"
proof -
  have "2 * (2::nat) ^ (d - k) = 2 ^ (Suc (d - k))" by simp
  also have "\<dots> \<le> 2 ^ d" using assms by (intro power_increasing) auto
  finally show ?thesis .
qed

lemma tree_pos_alt: "k \<le> d \<Longrightarrow> tree_pos d k j = 2 * 2 ^ d - 2 * 2 ^ (d - k) + j"
  by (simp add: tree_pos_def Suc_diff_le)

lemma tree_pos_bound:
  assumes "k \<le> d" "j < 2 ^ (d - k)"
  shows "tree_pos d k j < 2 * 2 ^ d - 2 ^ (d - k)"
proof -
  have "(2::nat) ^ (d - k) \<le> 2 ^ d" by simp
  with assms show ?thesis unfolding tree_pos_alt[OF assms(1)] by linarith
qed

lemma tree_pos_leaf: "tree_pos d 0 j = j"
  by (simp add: tree_pos_def)

lemma tree_pos_upper:
  assumes "1 \<le> k" "k \<le> d" "j < 2 ^ (d - k)"
  shows "tree_pos d k j = 2 ^ d + (2 ^ d - 2 * 2 ^ (d - k) + j)"
    and "2 ^ d - 2 * 2 ^ (d - k) + j < 2 ^ d"
proof -
  note t = twoA_le_X[OF assms(1,2)]
  have p: "(0::nat) < 2 ^ (d - k)" by simp
  show "tree_pos d k j = 2 ^ d + (2 ^ d - 2 * 2 ^ (d - k) + j)"
    unfolding tree_pos_alt[OF assms(2)] using t by linarith
  show "2 ^ d - 2 * 2 ^ (d - k) + j < 2 ^ d"
    using t p assms(3) by linarith
qed

lemma tree_pos_child:
  assumes "1 \<le> k" "k \<le> d"
  shows "tree_pos d (k - 1) (2 * j) = 2 * (2 ^ d - 2 * 2 ^ (d - k) + j)"
proof -
  note t = twoA_le_X[OF assms]
  have "d - (k - 1) = Suc (d - k)" using assms by linarith
  then have e: "(2::nat) ^ (d - (k - 1)) = 2 * 2 ^ (d - k)" by simp
  have "k - 1 \<le> d" using assms by linarith
  from tree_pos_alt[OF this] have "tree_pos d (k - 1) (2 * j) = 2 * 2 ^ d - 2 * (2 * 2 ^ (d - k)) + 2 * j"
    unfolding e .
  then show ?thesis using t by (simp add: diff_mult_distrib2 add_mult_distrib2)
qed

lemma tree_pos_half:
  assumes "k \<le> d" "j < 2 ^ (d - k)"
  shows "tree_pos d k j div 2 = 2 ^ d - 2 ^ (d - k) + j div 2"
    and "2 ^ d - 2 ^ (d - k) + j div 2 < 2 ^ d"
    and "tree_pos d (Suc k) (j div 2) = 2 ^ d + (2 ^ d - 2 ^ (d - k) + j div 2)"
proof -
  have le: "(2::nat) ^ (d - k) \<le> 2 ^ d" by simp
  have p: "(0::nat) < 2 ^ (d - k)" by simp
  have "tree_pos d k j = 2 * (2 ^ d - 2 ^ (d - k)) + j"
    unfolding tree_pos_alt[OF assms(1)] using le by linarith
  then show "tree_pos d k j div 2 = 2 ^ d - 2 ^ (d - k) + j div 2"
    by simp
  have "j div 2 < 2 ^ (d - k)" using assms by linarith
  then show "2 ^ d - 2 ^ (d - k) + j div 2 < 2 ^ d" using le p by linarith
  have "tree_pos d (Suc k) (j div 2) = 2 * 2 ^ d - 2 ^ (d - k) + j div 2"
    by (simp add: tree_pos_def)
  then show "tree_pos d (Suc k) (j div 2) = 2 ^ d + (2 ^ d - 2 ^ (d - k) + j div 2)"
    using le by linarith
qed

lemma tree_pos_parity:
  assumes "k \<le> d"
  shows "even (tree_pos d k j) \<longleftrightarrow> even j"
proof -
  have le: "(2::nat) ^ (d - k) \<le> 2 ^ d" by simp
  have "tree_pos d k j = 2 * (2 ^ d - 2 ^ (d - k)) + j"
    unfolding tree_pos_alt[OF assms(1)] using le by linarith
  then show ?thesis by simp
qed

lemma tree_pos_Suc: "tree_pos d k (Suc j) = Suc (tree_pos d k j)"
  by (simp add: tree_pos_def)


lemma pow_le_30: "d \<le> 30 \<Longrightarrow> (2::nat) ^ d \<le> 2 ^ 30"
  by (rule power_increasing) auto

lemma tree_pos_lt32:
  assumes "d \<le> 30" "k \<le> d" "j < 2 ^ (d - k)"
  shows "tree_pos d k j < 2 ^ 32"
proof -
  have "tree_pos d k j < 2 * 2 ^ d" using tree_pos_bound[OF assms(2,3)] by linarith
  moreover have "(2::nat) ^ d \<le> 2 ^ 30" using assms(1) by (rule pow_le_30)
  ultimately show ?thesis by simp
qed

lemma pos_and_msb_upper:
  assumes "d \<le> 30" "1 \<le> k" "k \<le> d" "j < 2 ^ (d - k)"
  shows "(of_nat (tree_pos d k j) :: 32 word) AND 2 ^ d \<noteq> 0"
proof -
  have "bit (tree_pos d k j) d"
    unfolding tree_pos_upper(1)[OF assms(2,3,4)]
    by (rule nat_bit_hi) (rule tree_pos_upper(2)[OF assms(2,3,4)])
  then have "bit (of_nat (tree_pos d k j) :: 32 word) d"
    using assms(1) by (simp add: w_bit)
  then show ?thesis
    by (simp add: and_exp_eq_0_iff_not_bit)
qed

lemma pos_and_msb_leaf:
  assumes "d \<le> 30" "j < 2 ^ d"
  shows "(of_nat (tree_pos d 0 j) :: 32 word) AND 2 ^ d = 0"
proof -
  have "\<not> bit j d" using assms(2) by (rule nat_not_bit)
  then have "\<not> bit (of_nat j :: 32 word) d"
    using assms(1) by (simp add: w_bit)
  then show ?thesis
    by (simp add: and_exp_eq_0_iff_not_bit tree_pos_leaf)
qed

lemma pos_descend:
  assumes "d \<le> 30" "1 \<le> k" "k \<le> d" "j < 2 ^ (d - k)"
  shows "push_bit 1 ((of_nat (tree_pos d k j) :: 32 word) XOR 2 ^ d)
           = of_nat (tree_pos d (k - 1) (2 * j))"
proof -
  let ?y = "2 ^ d - 2 * 2 ^ (d - k) + j"
  have "(of_nat (tree_pos d k j) :: 32 word) XOR 2 ^ d = of_nat ((2 ^ d + ?y) XOR 2 ^ d)"
    unfolding tree_pos_upper(1)[OF assms(2,3,4)] w_pow w_xor ..
  also have "\<dots> = of_nat ?y"
    using nat_xor_pow[OF tree_pos_upper(2)[OF assms(2,3,4)]] by simp
  finally have "push_bit 1 ((of_nat (tree_pos d k j) :: 32 word) XOR 2 ^ d) = of_nat (2 * ?y)"
    by (simp add: w_push)
  then show ?thesis
    unfolding tree_pos_child[OF assms(2,3)] .
qed

lemma pos_ascend:
  assumes "d \<le> 30" "k \<le> d" "j < 2 ^ (d - k)"
  shows "drop_bit 1 (of_nat (tree_pos d k j) :: 32 word) OR 2 ^ d
           = of_nat (tree_pos d (Suc k) (j div 2))"
proof -
  let ?y = "2 ^ d - 2 ^ (d - k) + j div 2"
  have "drop_bit 1 (of_nat (tree_pos d k j) :: 32 word) = of_nat (tree_pos d k j div 2 ^ 1)"
    by (rule w_drop) (rule tree_pos_lt32[OF assms])
  then have "drop_bit 1 (of_nat (tree_pos d k j) :: 32 word) = of_nat ?y"
    using tree_pos_half(1)[OF assms(2,3)] by simp
  then have "drop_bit 1 (of_nat (tree_pos d k j) :: 32 word) OR 2 ^ d = of_nat (?y OR 2 ^ d)"
    using w_or[of ?y "2 ^ d"] by simp
  also have "\<dots> = of_nat (2 ^ d + ?y)"
    using nat_or_pow[OF tree_pos_half(2)[OF assms(2,3)]] by simp
  finally show ?thesis
    unfolding tree_pos_half(3)[OF assms(2,3)] .
qed

lemma pos_or_1:
  assumes "k \<le> d"
  shows "(of_nat (tree_pos d k j) :: 32 word) OR 1
           = of_nat (tree_pos d k (if even j then Suc j else j))"
proof -
  have "(of_nat (tree_pos d k j) :: 32 word) OR 1 = of_nat (tree_pos d k j OR 1)"
    using w_or[of "tree_pos d k j" 1] by simp
  also have "tree_pos d k j OR 1 = tree_pos d k (if even j then Suc j else j)"
  proof -
    have "tree_pos d k j OR 1 = tree_pos d k j + of_bool (even (tree_pos d k j))"
      by (rule or_one_eq)
    then show ?thesis
      using tree_pos_parity[OF assms, of j] by (simp add: tree_pos_Suc)
  qed
  finally show ?thesis .
qed

lemma pos_and_1:
  assumes "d \<le> 30" "k \<le> d" "j < 2 ^ (d - k)"
  shows "(of_nat (tree_pos d k j) :: 32 word) AND 1 = 0 \<longleftrightarrow> even j"
proof -
  have "(of_nat (tree_pos d k j) :: 32 word) AND 1 = of_nat (tree_pos d k j AND 1)"
    using w_and[of "tree_pos d k j" 1] by simp
  also have "\<dots> = of_nat (tree_pos d k j mod 2)"
    by (simp add: and_one_eq)
  finally have "(of_nat (tree_pos d k j) :: 32 word) AND 1 = 0 \<longleftrightarrow> tree_pos d k j mod 2 = 0"
    using w_eq[of "tree_pos d k j mod 2" 0] by simp
  then show ?thesis
    using tree_pos_parity[OF assms(2), of j] by (simp add: even_iff_mod_2_eq_zero)
qed


section \<open>Width and height of the tree\<close>

lemma width_eq: "1 \<le> N \<Longrightarrow> CalcTreeWidth N k = Suc ((N - 1) div 2 ^ k)"
proof -
  assume "1 \<le> N"
  then have "N + 2 ^ k - 1 = (N - 1) + 2 ^ k" by simp
  then show ?thesis by (simp add: CalcTreeWidth_def div_add_self2)
qed

lemma width_gt_1_iff: 
  assumes "1 \<le> N" shows "1 < CalcTreeWidth N h \<longleftrightarrow> 2 ^ h < N"
proof -
  have "1 < CalcTreeWidth N h \<longleftrightarrow> 0 < (N - 1) div 2 ^ h"
    by (simp add: width_eq[OF assms])
  also have "\<dots> \<longleftrightarrow> 2 ^ h \<le> N - 1"
    by (simp add: div_greater_zero_iff)
  also have "\<dots> \<longleftrightarrow> 2 ^ h < N" using assms by linarith
  finally show ?thesis .
qed

lemma tree_height_from_props:
  assumes "1 \<le> N" "h = 0 \<or> 2 ^ (h - 1) < N"
  shows "N \<le> 2 ^ tree_height_from N h \<and> h \<le> tree_height_from N h
     \<and> (tree_height_from N h = 0 \<or> 2 ^ (tree_height_from N h - 1) < N)"
  using assms
proof (induction N h rule: tree_height_from.induct)
  case (1 NumTx height)
  show ?case
  proof (cases "1 < CalcTreeWidth NumTx height")
    case True
    then have lt: "2 ^ height < NumTx" using width_gt_1_iff[OF "1.prems"(1)] by simp
    have "NumTx \<le> 2 ^ tree_height_from NumTx (height + 1) \<and>
       height + 1 \<le> tree_height_from NumTx (height + 1) \<and>
       (tree_height_from NumTx (height + 1) = 0 \<or>
        2 ^ (tree_height_from NumTx (height + 1) - 1) < NumTx)"
      using "1.IH"[OF True "1.prems"(1)] lt by auto
    moreover have "tree_height_from NumTx height = tree_height_from NumTx (height + 1)"
      using True by (subst tree_height_from.simps) simp
    ultimately show ?thesis by auto
  next
    case False
    then have "\<not> 2 ^ height < NumTx" using width_gt_1_iff[OF "1.prems"(1)] by simp
    moreover have "tree_height_from NumTx height = height"
      using False by (subst tree_height_from.simps) simp
    ultimately show ?thesis using "1.prems" by auto
  qed
qed

lemma treeDepth_from_eq:
  assumes "1 \<le> N" "N \<le> 2 ^ 30" "h = 0 \<or> 2 ^ (h - 1) < N"
  shows "treeDepth_from (of_nat N) (of_nat h) = Some (of_nat (tree_height_from N h))"
  using assms
proof (induction N h rule: tree_height_from.induct)
  case (1 NumTx height)
  have h30: "height \<le> 30"
  proof (rule ccontr)
    assume "\<not> height \<le> 30"
    then have "30 \<le> height - 1" "height \<noteq> 0" by simp_all
    then have "(2::nat) ^ 30 \<le> 2 ^ (height - 1)" by (intro power_increasing) auto
    with "1.prems" \<open>height \<noteq> 0\<close> show False by simp
  qed
  then have "(2::nat) ^ height \<le> 2 ^ 30" by (rule pow_le_30)
  then have p32: "(2::nat) ^ height < 2 ^ 32" by simp
  have n32: "NumTx < 2 ^ 32" using "1.prems"(2) by simp
  have u: "unat (of_nat height :: 32 word) = height"
    using h30 by (simp add: unat_of_nat)
  have c: "push_bit (unat (of_nat height :: 32 word)) (1 :: 32 word) < of_nat NumTx
            \<longleftrightarrow> 2 ^ height < NumTx"
    using w_less[OF p32 n32] by (simp add: u push_bit_eq_mult)
  show ?case
  proof (cases "2 ^ height < NumTx")
    case True
    then have w: "1 < CalcTreeWidth NumTx height" using width_gt_1_iff[OF "1.prems"(1)] by simp
    have "treeDepth_from (of_nat NumTx) (of_nat (height + 1))
           = Some (of_nat (tree_height_from NumTx (height + 1)))"
      using "1.IH"[OF w "1.prems"(1,2)] True by simp
    moreover have "tree_height_from NumTx height = tree_height_from NumTx (height + 1)"
      using w by (subst tree_height_from.simps) simp
    moreover have "treeDepth_from (of_nat NumTx) (of_nat height)
        = treeDepth_from (of_nat NumTx) (of_nat (height + 1))"
      using c True by (subst treeDepth_from.simps) (simp add: add.commute)
    ultimately show ?thesis by simp
  next
    case False
    then have w: "\<not> 1 < CalcTreeWidth NumTx height"
      using width_gt_1_iff[OF "1.prems"(1)] by simp
    have "tree_height_from NumTx height = height"
      using w by (subst tree_height_from.simps) simp
    moreover have "treeDepth_from (of_nat NumTx) (of_nat height) = Some (of_nat height)"
      using c False by (subst treeDepth_from.simps) simp
    ultimately show ?thesis by simp
  qed
qed


section \<open>The dead zone\<close>

lemma tree_pos_Suc_0: "k \<le> d \<Longrightarrow> tree_pos d (Suc k) 0 = 2 * 2 ^ d - 2 ^ (d - k)"
  by (simp add: tree_pos_def)

lemma tree_pos_mono: "tree_pos d k a < tree_pos d k b \<longleftrightarrow> a < b"
  by (simp add: tree_pos_def)

lemma inDeadZone_loop_eq:
  assumes "d \<le> 30" "k \<le> d" "j < 2 ^ (d - k)"
  shows "i \<le> k \<Longrightarrow> L < 2 ^ (d - i) \<Longrightarrow>
     inDeadZone_loop (2 ^ d) (of_nat (tree_pos d k j))
        (of_nat (tree_pos d (Suc i) 0)) (of_nat (tree_pos d i L))
       = Some (L div 2 ^ (k - i) < j)"
proof (induction "k - i" arbitrary: i L)
  case 0
  then have ik: "i = k" by simp
  have b: "tree_pos d k j < tree_pos d (Suc k) 0"
    using tree_pos_bound[OF assms(2,3)] by (simp add: tree_pos_Suc_0[OF assms(2)])
  have h32: "tree_pos d (Suc k) 0 < 2 ^ 32"
  proof -
    have "tree_pos d (Suc k) 0 < 2 * 2 ^ d" 
      unfolding tree_pos_Suc_0[OF assms(2)] by (simp add: diff_less)
    moreover have "(2::nat) ^ d \<le> 2 ^ 30" using assms(1) by (rule pow_le_30)
    ultimately show ?thesis by simp
  qed
  have p32: "tree_pos d k j < 2 ^ 32" by (rule tree_pos_lt32[OF assms])
  have l32: "tree_pos d k L < 2 ^ 32" using tree_pos_lt32[OF assms(1,2)] "0.prems"(2) ik by simp
  have c: "\<not> (of_nat (tree_pos d (Suc k) 0) :: 32 word) \<le> of_nat (tree_pos d k j)"
    using w_le[OF h32 p32] b by simp
  have r: "(of_nat (tree_pos d k L) :: 32 word) < of_nat (tree_pos d k j) \<longleftrightarrow> L < j"
    using w_less[OF l32 p32] by (simp add: tree_pos_mono)
  show ?case
    unfolding ik using c r by (subst inDeadZone_loop.simps) simp
next
  case (Suc n)
  then have ik: "Suc i \<le> k" "n = k - Suc i" by simp_all
  then have id: "Suc i \<le> d" "i \<le> d" using assms(2) by simp_all
  have p32: "tree_pos d k j < 2 ^ 32" by (rule tree_pos_lt32[OF assms])
  have z: "(0::nat) < 2 ^ (d - Suc i)" by simp
  have h32: "tree_pos d (Suc i) 0 < 2 ^ 32" by (rule tree_pos_lt32[OF assms(1) id(1) z])
  have "(2::nat) ^ (d - k) * 2 \<le> 2 ^ (d - i)"
  proof -
    have "(2::nat) ^ (d - k) * 2 = 2 ^ (Suc (d - k))" by simp
    also have "\<dots> \<le> 2 ^ (d - i)" using ik(1) assms(2) by (intro power_increasing) auto
    finally show ?thesis .
  qed
  moreover have "(2::nat) ^ (d - k) \<le> 2 ^ d" by simp
  ultimately have "tree_pos d (Suc i) 0 \<le> tree_pos d k j"
    unfolding tree_pos_Suc_0[OF id(2)] tree_pos_alt[OF assms(2)] by linarith
  then have c: "(of_nat (tree_pos d (Suc i) 0) :: 32 word) \<le> of_nat (tree_pos d k j)"
    using w_le[OF h32 p32] by simp
  have a1: "drop_bit (Suc 0) (of_nat (tree_pos d (Suc i) 0) :: 32 word) OR 2 ^ d
             = of_nat (tree_pos d (Suc (Suc i)) 0)"
    using pos_ascend[OF assms(1) id(1) z] by simp
  have a2: "drop_bit (Suc 0) (of_nat (tree_pos d i L) :: 32 word) OR 2 ^ d
             = of_nat (tree_pos d (Suc i) (L div 2))"
    using pos_ascend[OF assms(1) id(2) Suc.prems(2)] by simp
  have "d - i = Suc (d - Suc i)" using id by simp
  then have "L < 2 * 2 ^ (d - Suc i)" using Suc.prems(2) by simp
  then have L2: "L div 2 < 2 ^ (d - Suc i)" by linarith
  have "k - i = Suc (k - Suc i)" using ik by simp
  then have e: "L div 2 ^ (k - i) = L div 2 div 2 ^ (k - Suc i)"
    by (simp add: div_mult2_eq)
  show ?case
    using Suc.hyps(1)[OF ik(2) ik(1) L2] c
    by (subst inDeadZone_loop.simps) (simp add: a1 a2 e)
qed

lemma inDeadZone_eq:
  assumes "d \<le> 30" "1 \<le> N" "N \<le> 2 ^ d" "nextPowerOfTwo (of_nat N) = Some (2 ^ d)"
    "k \<le> d" "j < 2 ^ (d - k)"
  shows "inDeadZone (of_nat (tree_pos d k j)) (of_nat N) = Some (CalcTreeWidth N k \<le> j)"
proof -
  have p32: "tree_pos d k j < 2 ^ 32" by (rule tree_pos_lt32[OF assms(1,5,6)])
  have x30: "(2::nat) ^ d \<le> 2 ^ 30" using assms(1) by (rule pow_le_30)
  have "(1::nat) \<le> 2 ^ (d - k)" by simp
  then have b: "tree_pos d k j \<le> 2 * 2 ^ d - 2"
    using tree_pos_bound[OF assms(5,6)] by linarith
  have "push_bit 1 (2 ^ d :: 32 word) - 2 = of_nat (2 * 2 ^ d) - of_nat 2"
    by (simp add: push_bit_eq_mult)
  also have "\<dots> = of_nat (2 * 2 ^ d - 2)"
    by (rule w_sub) simp
  finally have m: "push_bit 1 (2 ^ d :: 32 word) - 2 = of_nat (2 * 2 ^ d - 2)" .
  have "2 * (2::nat) ^ d - 2 < 2 ^ 32" using x30 by simp
  then have c: "\<not> push_bit 1 (2 ^ d :: 32 word) - 2 < of_nat (tree_pos d k j)"
    unfolding m using w_less[of "2 * 2 ^ d - 2" "tree_pos d k j"] p32 b by simp
  have h0: "(2 ^ d :: 32 word) = of_nat (tree_pos d (Suc 0) 0)"
    by (simp add: tree_pos_def)
  have l0: "(of_nat N :: 32 word) - 1 = of_nat (tree_pos d 0 (N - 1))"
    using assms(2) w_sub[of 1 N] by (simp add: tree_pos_leaf)
  have L: "N - 1 < 2 ^ (d - 0)" using assms(2,3) by simp
  have "inDeadZone_loop (2 ^ d) (of_nat (tree_pos d k j)) (2 ^ d) (of_nat N - 1)
          = Some ((N - 1) div 2 ^ (k - 0) < j)"
    unfolding l0 using inDeadZone_loop_eq[OF assms(1,5,6) _ L] h0 by simp
  then show ?thesis
    using c assms(4) by (simp add: inDeadZone_def width_eq[OF assms(2)] less_eq_Suc_le)
qed


section \<open>Flag bits\<close>

lemma length_byte_bits [simp]: "length (byte_bits b) = 8"
  by (simp add: byte_bits_def)

lemma flag_bits_step:
  assumes "unat i < 8" "flag_bits i flags = b # bs"
  shows "flags \<noteq> []"
    and "((hd flags AND push_bit (unat i) 1) \<noteq> 0) = b"
    and "i + 1 = 8 \<Longrightarrow> flag_bits 0 (tl flags) = bs"
    and "i + 1 \<noteq> 8 \<Longrightarrow> flag_bits (i + 1) flags = bs \<and> unat (i + 1) < 8"
proof -
  show ne: "flags \<noteq> []" using assms(2) by (auto simp add: flag_bits_def)
  then obtain f fs where f: "flags = f # fs" by (cases flags) auto
  have d: "drop (unat i) (byte_bits f) @ concat (map byte_bits fs) = b # bs"
    using assms by (simp add: flag_bits_def f)
  have "drop (unat i) (byte_bits f) = byte_bits f ! unat i # drop (Suc (unat i)) (byte_bits f)"
    using assms(1) by (simp add: Cons_nth_drop_Suc)
  with d have b: "b = byte_bits f ! unat i"
    and bs: "bs = drop (Suc (unat i)) (byte_bits f) @ concat (map byte_bits fs)"
    by simp_all
  have "byte_bits f ! unat i = bit f (unat i)"
    using assms(1) by (simp add: byte_bits_def)
  then show "((hd flags AND push_bit (unat i) 1) \<noteq> 0) = b"
    unfolding b f by (simp add: bit_iff_and_push_bit_not_eq_0)
  have u: "unat (i + 1) = (unat i + 1) mod 256"
    by (simp add: unat_word_ariths)
  show "flag_bits 0 (tl flags) = bs" if "i + 1 = 8"
  proof -
    from that u have "(unat i + 1) mod 256 = 8" by simp
    with assms(1) have "unat i = 7" by simp
    then show ?thesis unfolding bs f by (simp add: flag_bits_def)
  qed
  show "flag_bits (i + 1) flags = bs \<and> unat (i + 1) < 8" if "i + 1 \<noteq> 8"
  proof -
    have "unat (i + 1) \<noteq> 8" using that by (simp add: word_unat_eq_iff)
    with u assms(1) have "unat (i + 1) = Suc (unat i)" "unat (i + 1) < 8" by simp_all
    then show ?thesis unfolding bs f using assms(1) by (simp add: flag_bits_def)
  qed
qed


lemma concat_byte_bits_nth:
  "q < 8 * length fl \<Longrightarrow> concat (map byte_bits fl) ! q = bit (fl ! (q div 8)) (q mod 8)"
proof (induction fl arbitrary: q)
  case Nil
  then show ?case by simp
next
  case (Cons f fl)
  show ?case
  proof (cases "q < 8")
    case True
    then show ?thesis by (simp add: nth_append byte_bits_def)
  next
    case False
    then obtain r where q: "q = r + 8" by (metis le_add_diff_inverse2 not_less)
    have "r < 8 * length fl" using Cons.prems q by simp
    from Cons.IH[OF this] have "concat (map byte_bits fl) ! r = bit (fl ! (r div 8)) (r mod 8)" .
    moreover have "(r + 8) div 8 = Suc (r div 8)" by (simp add: div_add_self2)
    ultimately show ?thesis unfolding q by (simp add: nth_append)
  qed
qed

lemma length_concat_byte_bits: "length (concat (map byte_bits fl)) = 8 * length fl"
  by (induction fl) auto

lemma bit_flag: 
  assumes "b < 8"
  shows "bit (push_bit m (if p then 1 else 0 :: byte)) b \<longleftrightarrow> p \<and> b = m"
proof (cases p)
  case True
  have "bit (push_bit m (1 :: byte)) b \<longleftrightarrow> b < 8 \<and> b = m"
    by (simp add: bit_exp_iff possible_bit_word)
  then show ?thesis using True assms by simp
next
  case False
  then show ?thesis by simp
qed

lemma idx_eq: "b < 8 \<Longrightarrow> 8 * (n div 8) + b = n \<longleftrightarrow> b = n mod (8::nat)"
  by (metis add_left_cancel mult_div_mod_eq)

lemma idx_ne: "b < 8 \<Longrightarrow> k \<noteq> n div 8 \<Longrightarrow> 8 * k + b \<noteq> (n::nat)"
  by linarith

lemma pack_step_nth_eq:
  "n div 8 < length fl \<Longrightarrow>
     pack_step Bits fl n ! (n div 8)
       = fl ! (n div 8) OR push_bit (n mod 8) (if Bits ! n then 1 else 0)"
  by (simp add: pack_step_def)

lemma pack_step_nth_ne: "k \<noteq> n div 8 \<Longrightarrow> pack_step Bits fl n ! k = fl ! k"
  by (simp add: pack_step_def)

lemma length_pack_step: "length (pack_step Bits fl n) = length fl"
  by (simp add: pack_step_def)

lemma pack_inv:
  "n \<le> length Bits \<Longrightarrow>
   length (foldl (pack_step Bits) (replicate ((length Bits + 7) div 8) 0) [0..<n])
     = (length Bits + 7) div 8 \<and>
   (\<forall>k < (length Bits + 7) div 8. \<forall>b < 8.
      bit (foldl (pack_step Bits) (replicate ((length Bits + 7) div 8) 0) [0..<n] ! k) b
        \<longleftrightarrow> 8 * k + b < n \<and> Bits ! (8 * k + b))"
proof (induction n)
  case 0
  then show ?case by simp
next
  case (Suc n)
  let ?M = "(length Bits + 7) div 8"
  let ?fl = "foldl (pack_step Bits) (replicate ?M 0) [0..<n]"
  have IH: "length ?fl = ?M"
    "\<And>k b. k < ?M \<Longrightarrow> b < 8 \<Longrightarrow> bit (?fl ! k) b \<longleftrightarrow> 8 * k + b < n \<and> Bits ! (8 * k + b)"
    using Suc by simp_all
  have nM: "n div 8 < ?M" using Suc.prems by simp
  have f: "foldl (pack_step Bits) (replicate ?M 0) [0..<Suc n] = pack_step Bits ?fl n"
    by simp
  have "bit (pack_step Bits ?fl n ! k) b \<longleftrightarrow> 8 * k + b < Suc n \<and> Bits ! (8 * k + b)"
    if kb: "k < ?M" "b < 8" for k b
  proof (cases "k = n div 8")
    case True
    have e: "8 * k + b = n \<longleftrightarrow> b = n mod 8" unfolding True using kb(2) by (rule idx_eq)
    have l: "8 * k + b < Suc n \<longleftrightarrow> 8 * k + b < n \<or> b = n mod 8" using e by linarith
    have "pack_step Bits ?fl n ! k
        = (?fl ! k) OR push_bit (n mod 8) (if Bits ! n then 1 else 0)"
      unfolding True using nM IH(1) by (simp add: pack_step_nth_eq)
    then have "bit (pack_step Bits ?fl n ! k) b
         \<longleftrightarrow> bit (?fl ! k) b \<or> (Bits ! n \<and> b = n mod 8)"
      using bit_flag[OF kb(2), of "n mod 8" "Bits ! n"] by (simp add: bit_or_iff)
    then show ?thesis using IH(2)[OF kb] l e by auto
  next
    case False
    then have e: "8 * k + b \<noteq> n" using kb(2) idx_ne by blast
    then have l: "8 * k + b < Suc n \<longleftrightarrow> 8 * k + b < n" by linarith
    have "pack_step Bits ?fl n ! k = ?fl ! k" using False by (rule pack_step_nth_ne)
    then show ?thesis using IH(2)[OF kb] l by simp
  qed
  then show ?case unfolding f using IH(1) by (simp add: length_pack_step)
qed

lemma pack_flags_fold: "pack_flags Bits
   = foldl (pack_step Bits) (replicate ((length Bits + 7) div 8) 0) [0..<length Bits]"
  by (simp add: pack_flags_def pack_step_def[abs_def])

lemma flag_bits_pack:
  "flag_bits 0 (pack_flags Bits)
     = Bits @ replicate (8 * ((length Bits + 7) div 8) - length Bits) False"
proof (rule nth_equalityI)
  let ?M = "(length Bits + 7) div 8"
  have len: "length (pack_flags Bits) = ?M"
    using pack_inv[of "length Bits" Bits] by (simp add: pack_flags_fold)
  have L: "length Bits \<le> 8 * ?M" by linarith
  show l: "length (flag_bits 0 (pack_flags Bits))
     = length (Bits @ replicate (8 * ?M - length Bits) False)"
    using L by (simp add: flag_bits_def length_concat_byte_bits len)
  fix q assume "q < length (flag_bits 0 (pack_flags Bits))"
  then have q: "q < 8 * ?M" by (simp add: flag_bits_def length_concat_byte_bits len)
  then have qd: "q div 8 < ?M" "q mod 8 < 8" by simp_all
  have "flag_bits 0 (pack_flags Bits) ! q = bit (pack_flags Bits ! (q div 8)) (q mod 8)"
    using q by (simp add: flag_bits_def concat_byte_bits_nth len)
  also have "\<dots> \<longleftrightarrow> q < length Bits \<and> Bits ! q"
    using pack_inv[of "length Bits" Bits] qd by (simp add: pack_flags_fold)
  also have "\<dots> \<longleftrightarrow> (Bits @ replicate (8 * ?M - length Bits) False) ! q"
    using q by (simp add: nth_append)
  finally show "flag_bits 0 (pack_flags Bits) ! q
     = (Bits @ replicate (8 * ?M - length Bits) False) ! q" .
qed


section \<open>One iteration of the main loop\<close>

lemma main_loop_cont:
  "loop_body S root txs msb st = Some (Inl st') \<Longrightarrow>
     main_loop S root txs msb st = main_loop S root txs msb st'"
  by (subst main_loop.simps) simp

lemma main_loop_ret:
  "loop_body S root txs msb st = Some (Inr res) \<Longrightarrow> main_loop S root txs msb st = Some res"
  by (subst main_loop.simps) simp

lemma no_stack_op_shapes:
  "no_stack_op []" "no_stack_op (s @ [(p, None)])" "no_stack_op (s @ [(p, None), (q, x)])"
  by (simp_all add: no_stack_op_def nth_append)

lemma nat_int_m1: "nat (int n - 1) = n - 1"
  by simp
lemma nat_int_m2: "nat (int n - 1 - 1) = n - 2"
  by simp
lemma nat_int_num: "nat (int n - numeral k) = n - numeral k"
  by (simp add: nat_diff_distrib')

lemma loop_body_push:
  assumes "no_stack_op s" "inDeadZone pos txs = Some False"
  shows "loop_body S root txs msb (s, r, pos, i, hashes, flags) =
    (if hashes = [] then Some (Inr ([], Some (RanOutOfHashes pos)))
            else if flags = [] then Some (Inr ([], Some RanOutOfFlagBits))
            else if (pos AND msb) \<noteq> 0 then
              (if (hd flags AND push_bit (unat i) 1) = 0 then
                 Some (Inl (advance_flag
                   (s @ [(pos, hd hashes)], r,
                    (if (pos AND 1) \<noteq> 0 then drop_bit 1 pos OR msb else pos OR 1),
                    i, tl hashes, flags)))
               else
                 Some (Inl (advance_flag
                   (s @ [(pos, None)], r, push_bit 1 (pos XOR msb), i, hashes, flags))))
            else if pos \<ge> txs then Some (Inr ([], Some InvalidTxidNode))
            else
              Some (Inl (advance_flag
                (s @ [(pos, hd hashes)],
                 (if (hd flags AND push_bit (unat i) 1) \<noteq> 0 then r @ [hd hashes] else r),
                 (if (pos AND 1) = 0 then pos OR 1 else pos),
                 i, tl hashes, flags))))"
proof -
  have a: "\<not> (int (length s) - 1 = 0 \<and> snd (s ! 0) \<noteq> None)"
    using assms(1) by (auto simp add: no_stack_op_def)
  have b: "\<not> (1 < int (length s) - 1 \<and> snd (s ! nat (int (length s) - 1 - 1)) \<noteq> None
             \<and> snd (s ! nat (int (length s) - 1)) \<noteq> None)"
    using assms(1) by (auto simp add: no_stack_op_def nat_int_m1 nat_int_m2 nat_int_num)
  show ?thesis
    unfolding loop_body_def using a b assms(2)
    by (simp only: prod.case Let_def if_False option.case bool.case)
qed

lemma loop_body_finish:
  "loop_body S root txs msb ([(p, Some h)], r, pos, i, hashes, flags)
     = Some (Inr (if h = root then (r, None) else ([], Some (ComputedRootMismatch h root))))"
  by (simp add: loop_body_def)

lemma nth_snoc2:
  "(s @ [a, b]) ! Suc (length s) = b" "(s @ [a, b]) ! length s = a"
  by (simp_all add: nth_append)

lemma nth_snoc3:
  "(s @ [a, b, c]) ! Suc (Suc (length s)) = c" "(s @ [a, b, c]) ! Suc (length s) = b"
  "(s @ [a, b, c]) ! length s = a"
  by (simp_all add: nth_append)

lemma loop_body_dead:
  assumes "inDeadZone pos txs = Some True"
  shows "loop_body S root txs msb (s @ [(p, None), (q, Some hl)], r, pos, i, hashes, flags)
     = Some (Inl (s @ [(p, Some (S (hl @ hl)))], r, p OR 1, i, hashes, flags))"
proof -
  have n: "nat (int (length s) + 1) = Suc (length s)" "nat (int (length s)) = length s"
    "nat (1 + int (length s)) = Suc (length s)"
    by simp_all
  show ?thesis
    using assms
    by (simp add: loop_body_def MakeMerkleParent_def Let_def n nth_snoc2 nth_append)
qed

lemma loop_body_combine:
  assumes "inDeadZone pos txs = Some False"
  shows "loop_body S root txs msb
           (s @ [(p, None), (q, Some hl), (q', Some hr)], r, pos, i, hashes, flags)
     = (if hl = hr then Some (Inr (r, Some DupHashCrash))
        else Some (Inl (s @ [(p, Some (S (hl @ hr)))], r, p OR 1, i, hashes, flags)))"
proof -
  have n: "nat (int (length s) + 2) = Suc (Suc (length s))"
    "nat (int (length s) + 1) = Suc (length s)" "nat (int (length s)) = length s"
    "nat (1 + int (length s)) = Suc (length s)" "nat (2 + int (length s)) = Suc (Suc (length s))"
    by simp_all
  show ?thesis
    using assms
    by (simp add: loop_body_def MakeMerkleParent_def Let_def n nth_snoc3 nth_append)
qed


section \<open>Subtrees of the builder\<close>

lemma built_hashes_nonempty: "snd (TraverseAndBuild S A M k j) \<noteq> []"
  by (induction k arbitrary: j) (auto simp add: Let_def)

lemma width_ge_iff:
  assumes "1 \<le> N" shows "CalcTreeWidth N k \<le> j \<longleftrightarrow> N \<le> j * 2 ^ k"
proof -
  have "CalcTreeWidth N k \<le> j \<longleftrightarrow> (N - 1) div 2 ^ k < j"
    by (simp add: width_eq[OF assms] less_eq_Suc_le)
  also have "\<dots> \<longleftrightarrow> N - 1 < j * 2 ^ k"
    by (simp add: div_less_iff_less_mult)
  also have "\<dots> \<longleftrightarrow> N \<le> j * 2 ^ k" using assms by linarith
  finally show ?thesis .
qed

lemma width_child:
  assumes "1 \<le> N" "j < CalcTreeWidth N (Suc k)" shows "j * 2 < CalcTreeWidth N k"
proof -
  have "\<not> N \<le> j * 2 ^ Suc k" using width_ge_iff[OF assms(1), of "Suc k" j] assms(2) by simp
  then have "\<not> N \<le> (j * 2) * 2 ^ k" by (simp add: mult.assoc)
  then show ?thesis using width_ge_iff[OF assms(1), of k "j * 2"] by simp
qed

lemma width_bound:
  assumes "1 \<le> N" "N \<le> 2 ^ d" "k \<le> d" "j < CalcTreeWidth N k" shows "j < 2 ^ (d - k)"
proof (rule ccontr)
  assume "\<not> j < 2 ^ (d - k)"
  then have "2 ^ (d - k) * 2 ^ k \<le> j * 2 ^ k" by simp
  moreover have "(2::nat) ^ (d - k) * 2 ^ k = 2 ^ d" using assms(3) by (simp flip: power_add)
  ultimately have "N \<le> j * 2 ^ k" using assms(2) by linarith
  then show False using width_ge_iff[OF assms(1), of k j] assms(4) by simp
qed

lemma matched_txids_append:
  "length xs = length ys \<Longrightarrow>
     matched_txids (xs @ xs') (ys @ ys') = matched_txids xs ys @ matched_txids xs' ys'"
  by (simp add: matched_txids_def)

lemma slice_split:
  "take (2 ^ Suc k) (drop (j * 2 ^ Suc k) xs)
     = take (2 ^ k) (drop (j * 2 * 2 ^ k) xs) @ take (2 ^ k) (drop ((j * 2 + 1) * 2 ^ k) xs)"
proof -
  have d: "drop (2 ^ k) (drop (j * 2 * 2 ^ k) xs) = drop ((j * 2 + 1) * 2 ^ k) xs"
    by (simp add: add.commute)
  have "take (2 ^ Suc k) (drop (j * 2 ^ Suc k) xs)
      = take (2 ^ k + 2 ^ k) (drop (j * 2 * 2 ^ k) xs)"
    by (simp add: mult.assoc mult_2)
  also have "\<dots> = take (2 ^ k) (drop (j * 2 * 2 ^ k) xs)
          @ take (2 ^ k) (drop (2 ^ k) (drop (j * 2 * 2 ^ k) xs))"
    by (rule take_add)
  finally show ?thesis unfolding d .
qed

lemma sub_txids_Suc:
  assumes "length A = length M"
  shows "sub_txids A M (Suc k) j = sub_txids A M k (j * 2) @ sub_txids A M k (j * 2 + 1)"
  unfolding sub_txids_def slice_split using assms
  by (intro matched_txids_append) simp

lemma sub_txids_beyond: "length A \<le> j * 2 ^ k \<Longrightarrow> sub_txids A M k j = []"
  by (simp add: sub_txids_def matched_txids_def)

lemma sub_txids_leaf:
  assumes "length A = length M" "j < length A"
  shows "sub_txids A M 0 j = (if M ! j then [A ! j] else [])"
proof -
  have "take 1 (drop j A) = [A ! j]" "take 1 (drop j M) = [M ! j]"
    using assms by (simp_all add: take_Suc_conv_app_nth hd_drop_conv_nth take_Suc)
  then show ?thesis by (simp add: sub_txids_def matched_txids_def)
qed

lemma isParent_leaf: "j < length M \<Longrightarrow> isParent M 0 j = M ! j"
  by (simp add: isParent_def min_def upt_rec[of j "Suc j"])

lemma not_isParent_sub_txids:
  assumes "\<not> isParent M k j"
  shows "sub_txids A M k j = []"
proof -
  have "\<not> x" if "x \<in> set (take (2 ^ k) (drop (j * 2 ^ k) M))" for x
  proof -
    from that obtain q where q: "q < length (take (2 ^ k) (drop (j * 2 ^ k) M))"
      "x = take (2 ^ k) (drop (j * 2 ^ k) M) ! q"
      by (auto simp add: in_set_conv_nth)
    then have b: "q < 2 ^ k" "j * 2 ^ k + q < length M" by auto
    then have x: "x = M ! (j * 2 ^ k + q)" using q by simp
    have "j * 2 ^ k + q \<in> set [j * 2 ^ k ..< min ((j + 1) * 2 ^ k) (length M)]"
      using b by simp
    then show ?thesis using assms unfolding isParent_def list_ex_iff x by blast
  qed
  then have n: "\<And>x. x \<in> set (take (2 ^ k) (drop (j * 2 ^ k) M)) \<Longrightarrow> \<not> x" .
  have "\<not> snd p"
    if "p \<in> set (zip (take (2 ^ k) (drop (j * 2 ^ k) A)) (take (2 ^ k) (drop (j * 2 ^ k) M)))"
    for p
  proof -
    obtain a b where p: "p = (a, b)" by (cases p)
    from that have "snd p \<in> set (take (2 ^ k) (drop (j * 2 ^ k) M))"
      unfolding p by (auto dest: set_zip_rightD)
    then show ?thesis by (rule n)
  qed
  then have "filter snd (zip (take (2 ^ k) (drop (j * 2 ^ k) A)) (take (2 ^ k) (drop (j * 2 ^ k) M))) = []"
    by (simp add: filter_empty_conv)
  then show ?thesis by (simp add: sub_txids_def matched_txids_def)
qed

lemma sub_txids_root:
  "length A \<le> 2 ^ d \<Longrightarrow> length M = length A \<Longrightarrow> sub_txids A M d 0 = matched_txids A M"
  by (simp add: sub_txids_def)


section \<open>The verifier on one node\<close>

lemma advance_bits:
  assumes "bits_at i flags (b # bs)"
  shows "\<exists>i' flags'. bits_at i' flags' bs \<and>
     (\<forall>s r pos hashes.
        advance_flag (s, r, pos, i, hashes, flags) = (s, r, pos, i', hashes, flags'))"
proof (cases "i + 1 = 8")
  case True
  then show ?thesis
    using flag_bits_step(3)[of i flags b bs] assms
    by (simp add: advance_flag_def bits_at_def)
next
  case False
  then show ?thesis
    using flag_bits_step(4)[of i flags b bs] assms
    by (simp add: advance_flag_def bits_at_def)
qed

lemma bits_flag:
  assumes "bits_at i flags (b # bs)"
  shows "flags \<noteq> []" "((hd flags AND push_bit (unat i) 1) = 0) = (\<not> b)"
  using flag_bits_step(1,2)[of i flags b bs] assms by (auto simp add: bits_at_def)

lemma width_0: "CalcTreeWidth N 0 = N"
  by (simp add: CalcTreeWidth_def)

lemma run_leaf:
  assumes ctx: "d \<le> 30" "1 \<le> N" "N \<le> 2 ^ d" "nextPowerOfTwo (of_nat N) = Some (2 ^ d)"
    and j: "j < N" and q: "no_stack_op s" and b: "bits_at i flags (b # bs)"
  shows "\<exists>i' flags'.
     main_loop S root (of_nat N) (2 ^ d) (s, r, of_nat (tree_pos d 0 j), i, h # hs, flags)
       = main_loop S root (of_nat N) (2 ^ d)
           (s @ [(of_nat (tree_pos d 0 j), h)], (if b then r @ [h] else r),
            of_nat (tree_pos d 0 (if even j then Suc j else j)), i', hs, flags')
     \<and> bits_at i' flags' bs"
proof -
  let ?pos = "of_nat (tree_pos d 0 j) :: 32 word"
  have jd: "j < 2 ^ (d - 0)" using j ctx(3) by simp
  have dz: "inDeadZone ?pos (of_nat N) = Some False"
    using inDeadZone_eq[OF ctx(1,2,3,4) _ jd] j by (simp add: width_0)
  have m0: "?pos AND 2 ^ d = 0"
    using pos_and_msb_leaf[OF ctx(1)] jd by simp
  have N32: "N < 2 ^ 32" using ctx(3) pow_le_30[OF ctx(1)] by simp
  have lt: "\<not> (of_nat N :: 32 word) \<le> ?pos"
    using w_le[OF N32, of j] j N32 by (simp add: tree_pos_leaf)
  have p1: "(if (?pos AND 1) = 0 then ?pos OR 1 else ?pos)
        = of_nat (tree_pos d 0 (if even j then Suc j else j))"
    using pos_and_1[OF ctx(1) _ jd] pos_or_1[of 0 d j] by simp
  from advance_bits[OF b] obtain i' flags' where
    a: "\<And>s r pos hashes.
          advance_flag (s, r, pos, i, hashes, flags) = (s, r, pos, i', hashes, flags')"
    and b': "bits_at i' flags' bs"
    by blast
  have "loop_body S root (of_nat N) (2 ^ d) (s, r, ?pos, i, h # hs, flags)
      = Some (Inl (s @ [(?pos, h)], (if b then r @ [h] else r),
          of_nat (tree_pos d 0 (if even j then Suc j else j)), i', hs, flags'))"
    unfolding loop_body_push[OF q dz] using bits_flag[OF b] m0 lt
    by (simp add: p1 a)
  from main_loop_cont[OF this] b' show ?thesis by blast
qed

lemma run_fill:
  assumes ctx: "d \<le> 30" "1 \<le> N" "N \<le> 2 ^ d" "nextPowerOfTwo (of_nat N) = Some (2 ^ d)"
    and k: "1 \<le> k" "k \<le> d" and j: "j < CalcTreeWidth N k"
    and q: "no_stack_op s" and b: "bits_at i flags (False # bs)"
  shows "\<exists>pos' i' flags'.
     main_loop S root (of_nat N) (2 ^ d) (s, r, of_nat (tree_pos d k j), i, h # hs, flags)
       = main_loop S root (of_nat N) (2 ^ d)
           (s @ [(of_nat (tree_pos d k j), h)], r, pos', i', hs, flags')
     \<and> bits_at i' flags' bs
     \<and> (pos' = of_nat (tree_pos d k (if even j then Suc j else j))
          \<or> (odd j \<and> pos' = of_nat (tree_pos d (Suc k) (j div 2))))"
proof -
  let ?pos = "of_nat (tree_pos d k j) :: 32 word"
  let ?pos' = "if (?pos AND 1) \<noteq> 0 then drop_bit 1 ?pos OR 2 ^ d else ?pos OR 1"
  have jd: "j < 2 ^ (d - k)" by (rule width_bound[OF ctx(2,3) k(2) j])
  have dz: "inDeadZone ?pos (of_nat N) = Some False"
    using inDeadZone_eq[OF ctx(1,2,3,4) k(2) jd] j by simp
  have m: "?pos AND 2 ^ d \<noteq> 0"
    by (rule pos_and_msb_upper[OF ctx(1) k jd])
  have p: "?pos' = of_nat (tree_pos d k (if even j then Suc j else j))
          \<or> (odd j \<and> ?pos' = of_nat (tree_pos d (Suc k) (j div 2)))"
    using pos_and_1[OF ctx(1) k(2) jd] pos_or_1[OF k(2), of j] pos_ascend[OF ctx(1) k(2) jd]
    by auto
  from advance_bits[OF b] obtain i' flags' where
    a: "\<And>s r pos hashes.
          advance_flag (s, r, pos, i, hashes, flags) = (s, r, pos, i', hashes, flags')"
    and b': "bits_at i' flags' bs"
    by blast
  have "loop_body S root (of_nat N) (2 ^ d) (s, r, ?pos, i, h # hs, flags)
      = Some (Inl (s @ [(?pos, h)], r, ?pos', i', hs, flags'))"
    unfolding loop_body_push[OF q dz] using bits_flag[OF b] m
    by (simp add: a)
  from main_loop_cont[OF this] b' p show ?thesis by blast
qed

lemma run_descend:
  assumes ctx: "d \<le> 30" "1 \<le> N" "N \<le> 2 ^ d" "nextPowerOfTwo (of_nat N) = Some (2 ^ d)"
    and k: "1 \<le> k" "k \<le> d" and j: "j < CalcTreeWidth N k"
    and q: "no_stack_op s" and b: "bits_at i flags (True # bs)" and h: "hashes \<noteq> []"
  shows "\<exists>i' flags'.
     main_loop S root (of_nat N) (2 ^ d) (s, r, of_nat (tree_pos d k j), i, hashes, flags)
       = main_loop S root (of_nat N) (2 ^ d)
           (s @ [(of_nat (tree_pos d k j), None)], r, of_nat (tree_pos d (k - 1) (2 * j)),
            i', hashes, flags')
     \<and> bits_at i' flags' bs"
proof -
  let ?pos = "of_nat (tree_pos d k j) :: 32 word"
  have jd: "j < 2 ^ (d - k)" by (rule width_bound[OF ctx(2,3) k(2) j])
  have dz: "inDeadZone ?pos (of_nat N) = Some False"
    using inDeadZone_eq[OF ctx(1,2,3,4) k(2) jd] j by simp
  have m: "?pos AND 2 ^ d \<noteq> 0"
    by (rule pos_and_msb_upper[OF ctx(1) k jd])
  from advance_bits[OF b] obtain i' flags' where
    a: "\<And>s r pos hashes.
          advance_flag (s, r, pos, i, hashes, flags) = (s, r, pos, i', hashes, flags')"
    and b': "bits_at i' flags' bs"
    by blast
  have "loop_body S root (of_nat N) (2 ^ d) (s, r, ?pos, i, hashes, flags)
      = Some (Inl (s @ [(?pos, None)], r, of_nat (tree_pos d (k - 1) (2 * j)), i', hashes, flags'))"
    unfolding loop_body_push[OF q dz] using bits_flag[OF b] m h
      pos_descend[OF ctx(1) k jd]
    by (simp add: a)
  from main_loop_cont[OF this] b' show ?thesis by blast
qed

lemma run_combine:
  assumes "inDeadZone pos txs = Some False"
  shows "main_loop S root txs msb
           (s @ [(p, None), (q, Some hl), (q', Some hr)], r, pos, i, hashes, flags)
     = (if hl = hr then Some (r, Some DupHashCrash)
        else main_loop S root txs msb
               (s @ [(p, Some (S (hl @ hr)))], r, p OR 1, i, hashes, flags))"
proof (cases "hl = hr")
  case True
  then show ?thesis
    using main_loop_ret[of S root txs msb _ "(r, Some DupHashCrash)"]
      loop_body_combine[OF assms, of S root msb s p q hl q' hr r i hashes flags]
    by simp
next
  case False
  then show ?thesis
    using main_loop_cont[of S root txs msb
        "(s @ [(p, None), (q, Some hl), (q', Some hr)], r, pos, i, hashes, flags)"]
      loop_body_combine[OF assms, of S root msb s p q hl q' hr r i hashes flags]
    by simp
qed

lemma run_dead:
  assumes "inDeadZone pos txs = Some True"
  shows "main_loop S root txs msb (s @ [(p, None), (q, Some hl)], r, pos, i, hashes, flags)
     = main_loop S root txs msb (s @ [(p, Some (S (hl @ hl)))], r, p OR 1, i, hashes, flags)"
  by (rule main_loop_cont) (rule loop_body_dead[OF assms])

lemma run_finish:
  "main_loop S root txs msb ([(p, Some h)], r, pos, i, hashes, flags)
     = Some (if h = root then (r, None) else ([], Some (ComputedRootMismatch h root)))"
  by (rule main_loop_ret) (rule loop_body_finish)


section \<open>The verifier on a subtree\<close>

declare CalcHash.simps [simp del] TraverseAndBuild.simps [simp del] dup_below.simps [simp del]

lemma subtree_run:
  assumes ctx: "d \<le> 30" "1 \<le> N" "N \<le> 2 ^ d" "nextPowerOfTwo (of_nat N) = Some (2 ^ d)"
    and len: "length A = N" "length M = N"
  shows "k \<le> d \<Longrightarrow> j < CalcTreeWidth N k \<Longrightarrow> no_stack_op s \<Longrightarrow>
    bits_at i flags (fst (TraverseAndBuild S A M k j) @ brest) \<Longrightarrow>
    (if dup_below S A M k j
     then \<exists>r'. main_loop S root (of_nat N) (2 ^ d)
                 (s, r, of_nat (tree_pos d k j), i,
                  map Some (snd (TraverseAndBuild S A M k j)) @ hrest, flags)
               = Some (r', Some DupHashCrash)
     else \<exists>pos' i' flags'.
            main_loop S root (of_nat N) (2 ^ d)
                 (s, r, of_nat (tree_pos d k j), i,
                  map Some (snd (TraverseAndBuild S A M k j)) @ hrest, flags)
              = main_loop S root (of_nat N) (2 ^ d)
                 (s @ [(of_nat (tree_pos d k j), Some (CalcHash S A k j))],
                  r @ map Some (sub_txids A M k j), pos', i', hrest, flags')
            \<and> bits_at i' flags' brest
            \<and> (pos' = of_nat (tree_pos d k (if even j then Suc j else j))
                 \<or> (odd j \<and> pos' = of_nat (tree_pos d (Suc k) (j div 2)))))"
proof (induction k arbitrary: j s r i flags brest hrest)
  case 0
  have j: "j < N" using "0.prems"(2) by (simp add: width_0)
  have b: "bits_at i flags (M ! j # brest)"
    using "0.prems"(4) j len by (simp add: isParent_leaf TraverseAndBuild.simps)
  from run_leaf[OF ctx j "0.prems"(3) b, of S root r "Some (A ! j)" hrest]
  obtain i' flags' where
    "main_loop S root (of_nat N) (2 ^ d) (s, r, of_nat (tree_pos d 0 j), i, Some (A ! j) # hrest, flags)
       = main_loop S root (of_nat N) (2 ^ d)
           (s @ [(of_nat (tree_pos d 0 j), Some (A ! j))], (if M ! j then r @ [Some (A ! j)] else r),
            of_nat (tree_pos d 0 (if even j then Suc j else j)), i', hrest, flags')"
    "bits_at i' flags' brest"
    by blast
  moreover have "(if M ! j then r @ [Some (A ! j)] else r) = r @ map Some (sub_txids A M 0 j)"
    using sub_txids_leaf[of A M j] len j by simp
  ultimately show ?case
    by (auto simp add: TraverseAndBuild.simps CalcHash.simps dup_below.simps)
next
  case (Suc k)
  let ?P = "of_nat (tree_pos d (Suc k) j) :: 32 word"
  let ?W = "CalcTreeWidth N k"
  have kd: "1 \<le> Suc k" "Suc k \<le> d" "k \<le> d" using Suc.prems(1) by simp_all
  note jw = Suc.prems(2)
  show ?case
  proof (cases "isParent M (Suc k) j")
    case False
    then have b: "bits_at i flags (False # brest)"
      using Suc.prems(4) by (simp add: TraverseAndBuild.simps)
    have tb: "map Some (snd (TraverseAndBuild S A M (Suc k) j)) @ hrest
        = Some (CalcHash S A (Suc k) j) # hrest"
      using False by (simp add: TraverseAndBuild.simps)
    have st: "sub_txids A M (Suc k) j = []"
      using False by (rule not_isParent_sub_txids)
    have nd: "\<not> dup_below S A M (Suc k) j" using False by (simp add: dup_below.simps)
    have "\<exists>pos' i' flags'.
            main_loop S root (of_nat N) (2 ^ d)
                 (s, r, ?P, i, map Some (snd (TraverseAndBuild S A M (Suc k) j)) @ hrest, flags)
              = main_loop S root (of_nat N) (2 ^ d)
                 (s @ [(?P, Some (CalcHash S A (Suc k) j))],
                  r @ map Some (sub_txids A M (Suc k) j), pos', i', hrest, flags')
            \<and> bits_at i' flags' brest
            \<and> (pos' = of_nat (tree_pos d (Suc k) (if even j then Suc j else j))
                 \<or> (odd j \<and> pos' = of_nat (tree_pos d (Suc (Suc k)) (j div 2))))"
      unfolding tb st
      using run_fill[OF ctx kd(1,2) jw Suc.prems(3) b, of S root r
          "Some (CalcHash S A (Suc k) j)" hrest]
      by simp
    then show ?thesis using nd by simp
  next
    case True
    let ?L = "TraverseAndBuild S A M k (j * 2)"
    let ?R = "if j * 2 + 1 < ?W then TraverseAndBuild S A M k (j * 2 + 1) else ([], [])"
    let ?HL = "CalcHash S A k (j * 2)"
    let ?HR = "CalcHash S A k (j * 2 + 1)"
    let ?PL = "of_nat (tree_pos d k (j * 2)) :: 32 word"
    let ?PR = "of_nat (tree_pos d k (j * 2 + 1)) :: 32 word"
    have tb: "TraverseAndBuild S A M (Suc k) j = (True # fst ?L @ fst ?R, snd ?L @ snd ?R)"
      using True len by (simp add: Let_def TraverseAndBuild.simps)
    have jl: "j * 2 < ?W" by (rule width_child[OF ctx(2) jw])
    have jd: "j < 2 ^ (d - Suc k)" by (rule width_bound[OF ctx(2,3) kd(2) jw])
    have b0: "bits_at i flags (True # (fst ?L @ fst ?R @ brest))"
      using Suc.prems(4) unfolding tb by simp
    have hne: "map Some (snd ?L @ snd ?R) @ hrest \<noteq> []"
      using built_hashes_nonempty[of S A M k "j * 2"] by simp
    from run_descend[OF ctx kd(1,2) jw Suc.prems(3) b0 hne, of S root r]
    obtain i1 flags1 where
      s1: "main_loop S root (of_nat N) (2 ^ d)
             (s, r, ?P, i, map Some (snd ?L @ snd ?R) @ hrest, flags)
         = main_loop S root (of_nat N) (2 ^ d)
             (s @ [(?P, None)], r, ?PL, i1, map Some (snd ?L @ snd ?R) @ hrest, flags1)"
      and b1: "bits_at i1 flags1 (fst ?L @ (fst ?R @ brest))"
      by (auto simp add: mult.commute)
    have s1': "main_loop S root (of_nat N) (2 ^ d)
             (s, r, ?P, i, map Some (snd (TraverseAndBuild S A M (Suc k) j)) @ hrest, flags)
         = main_loop S root (of_nat N) (2 ^ d)
             (s @ [(?P, None)], r, ?PL, i1, map Some (snd ?L) @ (map Some (snd ?R) @ hrest), flags1)"
      using s1 unfolding tb by simp
    note IHL = Suc.IH[OF kd(3) jl no_stack_op_shapes(2)[of s ?P] b1,
        of r "map Some (snd ?R) @ hrest"]
    show ?thesis
    proof (cases "dup_below S A M k (j * 2)")
      case dl: True
      then have "dup_below S A M (Suc k) j" using True len by (simp add: dup_below.simps)
      moreover from IHL dl obtain r' where
        "main_loop S root (of_nat N) (2 ^ d)
           (s @ [(?P, None)], r, ?PL, i1, map Some (snd ?L) @ (map Some (snd ?R) @ hrest), flags1)
          = Some (r', Some DupHashCrash)"
        by auto
      ultimately show ?thesis using s1' by auto
    next
      case dl: False
      from IHL dl obtain pos2 i2 flags2 where
        s2: "main_loop S root (of_nat N) (2 ^ d)
           (s @ [(?P, None)], r, ?PL, i1, map Some (snd ?L) @ (map Some (snd ?R) @ hrest), flags1)
          = main_loop S root (of_nat N) (2 ^ d)
           (s @ [(?P, None), (?PL, Some ?HL)], r @ map Some (sub_txids A M k (j * 2)),
            pos2, i2, map Some (snd ?R) @ hrest, flags2)"
        and b2: "bits_at i2 flags2 (fst ?R @ brest)"
        and p2: "pos2 = ?PR"
        by auto
      have sub: "sub_txids A M (Suc k) j
          = sub_txids A M k (j * 2) @ sub_txids A M k (j * 2 + 1)"
        using len by (intro sub_txids_Suc) simp
      have por: "?P OR 1 = of_nat (tree_pos d (Suc k) (if even j then Suc j else j))"
        by (rule pos_or_1[OF kd(2)])
      show ?thesis
      proof (cases "j * 2 + 1 < ?W")
        case r: True
        have bR: "bits_at i2 flags2 (fst (TraverseAndBuild S A M k (j * 2 + 1)) @ brest)"
          using b2 r by simp
        note IHR = Suc.IH[OF kd(3) r no_stack_op_shapes(3)[of s ?P ?PL "Some ?HL"] bR,
            of "r @ map Some (sub_txids A M k (j * 2))" hrest]
        have s2': "main_loop S root (of_nat N) (2 ^ d)
           (s @ [(?P, None)], r, ?PL, i1, map Some (snd ?L) @ (map Some (snd ?R) @ hrest), flags1)
          = main_loop S root (of_nat N) (2 ^ d)
           (s @ [(?P, None), (?PL, Some ?HL)], r @ map Some (sub_txids A M k (j * 2)),
            ?PR, i2, map Some (snd (TraverseAndBuild S A M k (j * 2 + 1))) @ hrest, flags2)"
          using s2 r unfolding p2 by simp
        show ?thesis
        proof (cases "dup_below S A M k (j * 2 + 1)")
          case dr: True
          then have "dup_below S A M (Suc k) j" using True r len by (simp add: dup_below.simps)
          moreover from IHR dr obtain r' where
            "main_loop S root (of_nat N) (2 ^ d)
              (s @ [(?P, None), (?PL, Some ?HL)], r @ map Some (sub_txids A M k (j * 2)),
               ?PR, i2, map Some (snd (TraverseAndBuild S A M k (j * 2 + 1))) @ hrest, flags2)
             = Some (r', Some DupHashCrash)"
            by auto
          ultimately show ?thesis using s1' s2' by auto
        next
          case dr: False
          from IHR dr obtain pos3 i3 flags3 where
            s3: "main_loop S root (of_nat N) (2 ^ d)
              (s @ [(?P, None), (?PL, Some ?HL)], r @ map Some (sub_txids A M k (j * 2)),
               ?PR, i2, map Some (snd (TraverseAndBuild S A M k (j * 2 + 1))) @ hrest, flags2)
             = main_loop S root (of_nat N) (2 ^ d)
              (s @ [(?P, None), (?PL, Some ?HL), (?PR, Some ?HR)],
               r @ map Some (sub_txids A M k (j * 2)) @ map Some (sub_txids A M k (j * 2 + 1)),
               pos3, i3, hrest, flags3)"
            and b3: "bits_at i3 flags3 brest"
            and p3: "pos3 = ?PR \<or> pos3 = ?P"
            by auto
          have rd: "j * 2 + 1 < 2 ^ (d - k)" by (rule width_bound[OF ctx(2,3) kd(3) r])
          have "inDeadZone ?PR (of_nat N) = Some False"
            using inDeadZone_eq[OF ctx(1,2,3,4) kd(3) rd] r by simp
          moreover have "inDeadZone ?P (of_nat N) = Some False"
            using inDeadZone_eq[OF ctx(1,2,3,4) kd(2) jd] jw by simp
          ultimately have dz: "inDeadZone pos3 (of_nat N) = Some False" using p3 by auto
          note c = run_combine[OF dz, of S root "2 ^ d" s ?P ?PL ?HL ?PR ?HR
              "r @ map Some (sub_txids A M k (j * 2)) @ map Some (sub_txids A M k (j * 2 + 1))"
              i3 hrest flags3]
          have ch: "CalcHash S A (Suc k) j = S (?HL @ ?HR)"
            using r len by (simp add: Let_def CalcHash.simps)
          show ?thesis
          proof (cases "?HL = ?HR")
            case e: True
            then have "dup_below S A M (Suc k) j" using True r len by (simp add: dup_below.simps)
            then show ?thesis using s1' s2' s3 c e by auto
          next
            case e: False
            then have nd: "\<not> dup_below S A M (Suc k) j"
              using dl dr len by (simp add: dup_below.simps)
            have "main_loop S root (of_nat N) (2 ^ d)
                 (s, r, ?P, i, map Some (snd (TraverseAndBuild S A M (Suc k) j)) @ hrest, flags)
              = main_loop S root (of_nat N) (2 ^ d)
                 (s @ [(?P, Some (CalcHash S A (Suc k) j))],
                  r @ map Some (sub_txids A M (Suc k) j), ?P OR 1, i3, hrest, flags3)"
              using s1' s2' s3 c e unfolding ch sub by simp
            then show ?thesis using nd b3 por by auto
          qed
        qed
      next
        case r: False
        have rd: "j * 2 + 1 < 2 ^ (d - k)"
        proof -
          have "d - k = Suc (d - Suc k)" using kd by simp
          then have "(2::nat) ^ (d - k) = 2 * 2 ^ (d - Suc k)" by simp
          then show ?thesis using jd by linarith
        qed
        have dz: "inDeadZone pos2 (of_nat N) = Some True"
          unfolding p2 using inDeadZone_eq[OF ctx(1,2,3,4) kd(3) rd] r by simp
        note c = run_dead[OF dz, of S root "2 ^ d" s ?P ?PL ?HL
              "r @ map Some (sub_txids A M k (j * 2))" i2 hrest flags2]
        have ch: "CalcHash S A (Suc k) j = S (?HL @ ?HL)"
          using r len by (simp add: Let_def CalcHash.simps)
        have "N \<le> (j * 2 + 1) * 2 ^ k"
          using width_ge_iff[OF ctx(2), of k "j * 2 + 1"] r by simp
        then have "sub_txids A M k (j * 2 + 1) = []"
          using len by (intro sub_txids_beyond) simp
        then have sub': "sub_txids A M (Suc k) j = sub_txids A M k (j * 2)"
          using sub by simp
        have nd: "\<not> dup_below S A M (Suc k) j" using dl r len by (simp add: dup_below.simps)
        have "main_loop S root (of_nat N) (2 ^ d)
                 (s, r, ?P, i, map Some (snd (TraverseAndBuild S A M (Suc k) j)) @ hrest, flags)
              = main_loop S root (of_nat N) (2 ^ d)
                 (s @ [(?P, Some (CalcHash S A (Suc k) j))],
                  r @ map Some (sub_txids A M (Suc k) j), ?P OR 1, i2, hrest, flags2)"
          using s1' s2 c r unfolding ch sub' by simp
        then show ?thesis using nd b2 r por by auto
      qed
    qed
  qed
qed


section \<open>The verifier on the block of the test\<close>

lemma built_bits_nonempty: "fst (TraverseAndBuild S A M k j) \<noteq> []"
  by (cases k) (auto simp add: Let_def TraverseAndBuild.simps)

lemma length_pack_flags: "length (pack_flags Bits) = (length Bits + 7) div 8"
  using pack_inv[of "length Bits" Bits] by (simp add: pack_flags_fold)

lemma pack_flags_nonempty: "Bits \<noteq> [] \<Longrightarrow> pack_flags Bits \<noteq> []"
proof -
  assume "Bits \<noteq> []"
  then have "0 < length Bits" by simp
  then have "0 < (length Bits + 7) div 8" by linarith
  then show ?thesis using length_pack_flags[of Bits] by auto
qed

lemma height_facts:
  assumes "1 \<le> N" "N \<le> 2 ^ 30"
  shows "N \<le> 2 ^ tree_height_from N 0" "tree_height_from N 0 \<le> 30"
    "treeDepth (of_nat N) = Some (of_nat (tree_height_from N 0))"
    "nextPowerOfTwo (of_nat N) = Some (2 ^ tree_height_from N 0)"
    "unat (of_nat (tree_height_from N 0) :: 32 word) = tree_height_from N 0"
proof -
  let ?d = "tree_height_from N 0"
  note p = tree_height_from_props[OF assms(1), of 0]
  show le: "N \<le> 2 ^ ?d" using p by simp
  show d30: "?d \<le> 30"
  proof (rule ccontr)
    assume "\<not> ?d \<le> 30"
    then have a: "30 \<le> ?d - 1" "?d \<noteq> 0" by simp_all
    then have "(2::nat) ^ 30 \<le> 2 ^ (?d - 1)" by (intro power_increasing) auto
    with p a assms(2) show False by simp
  qed
  show td: "treeDepth (of_nat N) = Some (of_nat ?d)"
    using treeDepth_from_eq[OF assms, of 0] by (simp add: treeDepth_def)
  show u: "unat (of_nat ?d :: 32 word) = ?d"
    using d30 by (simp add: unat_of_nat)
  show "nextPowerOfTwo (of_nat N) = Some (2 ^ ?d)"
    by (simp add: nextPowerOfTwo_def td u push_bit_eq_mult)
qed

lemma check_built:
  fixes S :: "byte list \<Rightarrow> byte list" and x :: Uint256 and A :: "Uint256 list"
    and M :: "bool list"
  assumes N: "1 \<le> length A" "length A \<le> 2 ^ 30" and M: "length M = length A"
  defines "d \<equiv> tree_height_from (length A) 0"
  defines "m \<equiv> \<lparr>BlockHeader = \<lparr>MerkleRoot = x\<rparr>,
                   Transactions = of_nat (length A),
                   Hashes = map Some (snd (TraverseAndBuild S A M d 0)),
                   Flags = pack_flags (fst (TraverseAndBuild S A M d 0))\<rparr>"
  shows "if dup_below S A M d 0
         then \<exists>r'. CheckMerkleBlock S m = Some (r', Some DupHashCrash)
         else CheckMerkleBlock S m =
                Some (if CalcHash S A d 0 = x then (map Some (matched_txids A M), None)
                      else ([], Some (ComputedRootMismatch (CalcHash S A d 0) x)))"
proof -
  let ?N = "length A"
  let ?T = "TraverseAndBuild S A M d 0"
  note h = height_facts[OF N, folded d_def]
  have N32: "?N < 2 ^ 32" using N(2) by simp
  have t0: "(of_nat ?N :: 32 word) \<noteq> 0"
    using w_eq[OF N32, of 0] N(1) by auto
  have f0: "pack_flags (fst ?T) \<noteq> []"
    by (rule pack_flags_nonempty) (rule built_bits_nonempty)
  have "push_bit 1 (2 ^ d :: 32 word) - 2 = of_nat (2 * 2 ^ d) - of_nat 2"
    by (simp add: push_bit_eq_mult)
  also have "\<dots> = of_nat (2 * 2 ^ d - 2)"
    by (rule w_sub) simp
  also have "2 * 2 ^ d - 2 = tree_pos d d 0" by (simp add: tree_pos_def)
  finally have p0: "push_bit 1 (2 ^ d :: 32 word) - 2 = of_nat (tree_pos d d 0)" .
  then have p1: "(2 ^ d * 2 - 2 :: 32 word) = of_nat (tree_pos d d 0)"
    by (simp add: push_bit_eq_mult)
  have c: "CheckMerkleBlock S m
      = main_loop S x (of_nat ?N) (2 ^ d)
          ([], [], of_nat (tree_pos d d 0), 0, map Some (snd ?T) @ [], pack_flags (fst ?T))"
    using t0 f0 h(4) by (simp add: CheckMerkleBlock_def m_def p0 p1)
  have w: "0 < CalcTreeWidth ?N d" using width_eq[OF N(1), of d] by simp
  have b: "bits_at 0 (pack_flags (fst ?T))
     (fst ?T @ replicate (8 * ((length (fst ?T) + 7) div 8) - length (fst ?T)) False)"
    by (simp add: bits_at_def flag_bits_pack)
  note sr = subtree_run[OF h(2) N(1) h(1) h(4) refl M le_refl w no_stack_op_shapes(1) b,
      where root = x and r = "[]" and hrest = "[]"]
  show ?thesis
  proof (cases "dup_below S A M d 0")
    case True
    then show ?thesis using sr c by simp
  next
    case False
    with sr obtain pos' i' flags' where
      "main_loop S x (of_nat ?N) (2 ^ d)
          ([], [], of_nat (tree_pos d d 0), 0, map Some (snd ?T) @ [], pack_flags (fst ?T))
        = main_loop S x (of_nat ?N) (2 ^ d)
          ([] @ [(of_nat (tree_pos d d 0), Some (CalcHash S A d 0))],
           [] @ map Some (sub_txids A M d 0), pos', i', [], flags')"
      by auto
    then have "CheckMerkleBlock S m
       = Some (if CalcHash S A d 0 = x then (map Some (sub_txids A M d 0), None)
               else ([], Some (ComputedRootMismatch (CalcHash S A d 0) x)))"
      unfolding c by (simp add: run_finish)
    then show ?thesis
      using False sub_txids_root[OF h(1) M] by simp
  qed
qed

lemma run_MerkleBlock_eq:
  assumes N: "1 \<le> length A" "length A \<le> 2 ^ 30"
  shows "run_MerkleBlock S A M =
     Some \<lparr>BlockHeader = \<lparr>MerkleRoot = CalcHash S A (tree_height_from (length A) 0) 0\<rparr>,
           Transactions = of_nat (length A),
           Hashes = map Some (snd (TraverseAndBuild S A M (tree_height_from (length A) 0) 0)),
           Flags = pack_flags (fst (TraverseAndBuild S A M (tree_height_from (length A) 0) 0))\<rparr>"
  using height_facts(3,5)[OF N] by (simp add: run_MerkleBlock_def Let_def)

lemma distinct_no_dup:
  assumes "distinct_siblings S A"
  shows "k \<le> tree_height_from (length A) 0 \<Longrightarrow> j < CalcTreeWidth (length A) k \<Longrightarrow>
     \<not> dup_below S A M k j"
proof (induction k arbitrary: j)
  case 0
  then show ?case by (simp add: dup_below.simps)
next
  case (Suc k)
  have k: "k < tree_height_from (length A) 0" "k \<le> tree_height_from (length A) 0"
    using Suc.prems(1) by simp_all
  have ne: "j * 2 + 1 < CalcTreeWidth (length A) k \<Longrightarrow>
      CalcHash S A k (j * 2) \<noteq> CalcHash S A k (j * 2 + 1)"
    using assms k(1) Suc.prems(2) by (simp add: distinct_siblings_def list_all_iff)
  have N1: "1 \<le> length A"
  proof (rule ccontr)
    assume "\<not> 1 \<le> length A"
    then have "length A = 0" by (cases A) simp_all
    moreover have "(2::nat) ^ Suc k - 1 < 2 ^ Suc k" by simp
    ultimately have "CalcTreeWidth (length A) (Suc k) = 0"
      unfolding CalcTreeWidth_def by (simp only: add_0 div_less)
    with Suc.prems(2) show False by simp
  qed
  have l: "j * 2 < CalcTreeWidth (length A) k" by (rule width_child[OF N1 Suc.prems(2)])
  show ?case
    using Suc.IH[OF k(2) l] Suc.IH[OF k(2), of "j * 2 + 1"] ne
    by (auto simp add: dup_below.simps)
qed


section \<open>Duplicated leaves\<close>

lemma built_block_checked:
  assumes N: "1 \<le> length A" "length A \<le> 2 ^ 30" and M: "length M = length A"
    and ds: "distinct_siblings S A"
  shows "\<exists>m. run_MerkleBlock S A M = Some m \<and>
     MerkleRoot (BlockHeader m) = CalcHash S A (tree_height_from (length A) 0) 0 \<and>
     CheckMerkleBlock S m = Some (map Some (matched_txids A M), None) \<and>
     CheckMerkleBlock S (m\<lparr>BlockHeader := \<lparr>MerkleRoot = x\<rparr>\<rparr>)
       = Some (if MerkleRoot (BlockHeader m) = x then (map Some (matched_txids A M), None)
               else ([], Some (ComputedRootMismatch (MerkleRoot (BlockHeader m)) x)))"
proof -
  let ?d = "tree_height_from (length A) 0"
  have w: "0 < CalcTreeWidth (length A) ?d" using width_eq[OF N(1), of ?d] by simp
  have nd: "\<not> dup_below S A M ?d 0" by (rule distinct_no_dup[OF ds le_refl w])
  show ?thesis
    using check_built[OF N M, of S "CalcHash S A ?d 0"] check_built[OF N M, of S x] nd
    by (simp add: run_MerkleBlock_eq[OF N])
qed

lemma isParent_above:
  assumes "i < length M" "M ! i" shows "isParent M k (i div 2 ^ k)"
proof -
  have a: "i div 2 ^ k * 2 ^ k \<le> i" by simp
  have m: "i mod 2 ^ k < 2 ^ k" by simp
  have "i div 2 ^ k * 2 ^ k + i mod 2 ^ k = i" by (rule div_mult_mod_eq)
  with m have "i < i div 2 ^ k * 2 ^ k + 2 ^ k" by linarith
  then have "i < (i div 2 ^ k + 1) * 2 ^ k" by (simp add: add_mult_distrib)
  with a assms show ?thesis
    unfolding isParent_def list_ex_iff by (intro bexI[of _ i]) simp_all
qed

lemma div_pow_Suc:
  fixes x y :: nat
  shows "x div 2 = y div 2 \<Longrightarrow> x div 2 ^ Suc k = y div 2 ^ Suc k"
  by (simp only: power_Suc div_mult2_eq)

lemma half_cases:
  fixes x :: nat
  shows "x div 2 * 2 = x \<or> x div 2 * 2 + 1 = x"
  by presburger

lemma dup_path:
  assumes N: "2 \<le> length A" "even (length A)" and M: "length M = length A"
    and eq: "A ! (length A - 2) = A ! (length A - 1)"
    and i: "i = length A - 2 \<or> i = length A - 1" "M ! i"
  shows "dup_below S A M (Suc k) ((length A - 1) div 2 ^ Suc k)"
proof (induction k)
  case 0
  let ?N = "length A"
  obtain q where q: "?N = 2 * q" "1 \<le> q" using N by (auto elim!: evenE)
  have j: "(?N - 1) div 2 ^ Suc 0 = q - 1" using q by simp
  have i2: "i div 2 = q - 1" using i(1) q by presburger
  have il: "i < length M" using i(1) N(1) M by auto
  have p: "isParent M (Suc 0) (q - 1)" using isParent_above[OF il i(2), of "Suc 0"] i2 by simp
  have e: "(q - 1) * 2 = ?N - 2" "(q - 1) * 2 + 1 = ?N - 1" using q by simp_all
  have s: "?N - 2 + 1 = ?N - 1" using N(1) by simp
  show ?case
    unfolding j dup_below.simps CalcHash.simps width_0 e(1) s
    using p N(1) eq by simp
next
  case (Suc k)
  let ?N = "length A"
  let ?j = "(?N - 1) div 2 ^ Suc k"
  have N1: "1 \<le> ?N" using N(1) by simp
  have il: "i < length M" using i(1) N(1) M by auto
  obtain q where q: "?N = 2 * q" "1 \<le> q" using N by (auto elim!: evenE)
  have "i div 2 = (?N - 1) div 2" using i(1) q by presburger
  then have id: "i div 2 ^ Suc (Suc k) = (?N - 1) div 2 ^ Suc (Suc k)"
    by (rule div_pow_Suc)
  have p: "isParent M (Suc (Suc k)) ((?N - 1) div 2 ^ Suc (Suc k))"
    using isParent_above[OF il i(2), of "Suc (Suc k)"] id by simp
  have h: "(?N - 1) div 2 ^ Suc (Suc k) = ?j div 2"
    by (simp only: power_Suc2[of 2 "Suc k"] div_mult2_eq)
  have w: "?j < CalcTreeWidth ?N (Suc k)" by (simp add: width_eq[OF N1])
  have c: "?j div 2 * 2 = ?j \<or> ?j div 2 * 2 + 1 = ?j" by (rule half_cases)
  show ?case
    unfolding h dup_below.simps(2)[of S A M "Suc k" "?j div 2"]
    using p[unfolded h] c Suc.IH w by auto
qed

lemma dup_rejected:
  assumes N: "2 \<le> length A" "length A \<le> 2 ^ 30" "even (length A)" and M: "length M = length A"
    and eq: "A ! (length A - 2) = A ! (length A - 1)"
    and i: "M ! (length A - 2) \<or> M ! (length A - 1)"
  shows "\<exists>m r. run_MerkleBlock S A M = Some m \<and> CheckMerkleBlock S m = Some (r, Some DupHashCrash)"
proof -
  let ?N = "length A"
  let ?d = "tree_height_from ?N 0"
  have N1: "1 \<le> ?N" using N(1) by simp
  note h = height_facts[OF N1 N(2)]
  have "?d \<noteq> 0"
  proof
    assume "?d = 0"
    with h(1) N(1) show False by simp
  qed
  then obtain k where k: "?d = Suc k" by (cases ?d) auto
  have "?N - 1 < 2 ^ ?d" using h(1) N1 by linarith
  then have z: "(?N - 1) div 2 ^ Suc k = 0" using k by simp
  obtain i where "i = ?N - 2 \<or> i = ?N - 1" "M ! i" using i by blast
  from dup_path[OF N(1) N(3) M eq this, of S k] have "dup_below S A M ?d 0"
    using z k by simp
  then show ?thesis
    using check_built[OF N1 N(2) M, of S "CalcHash S A ?d 0"]
    by (simp add: run_MerkleBlock_eq[OF N1 N(2)])
qed


lemma loop_body_dup:
  assumes "inDeadZone pos txs = Some False"
  shows "loop_body S root txs msb (s @ [a, (q, Some h), (q', Some h)], r, pos, i, hashes, flags)
     = Some (Inr (r, Some DupHashCrash))"
proof -
  have n: "nat (int (length s) + 2) = Suc (Suc (length s))"
    "nat (int (length s) + 1) = Suc (length s)" "nat (int (length s)) = length s"
    "nat (1 + int (length s)) = Suc (length s)" "nat (2 + int (length s)) = Suc (Suc (length s))"
    by simp_all
  show ?thesis
    using assms
    by (simp add: loop_body_def MakeMerkleParent_def Let_def n nth_snoc3 nth_append)
qed

lemma built_1024:
  "length A \<le> 1024 \<Longrightarrow> length A \<le> 2 ^ 30"
  by simp

text \<open>
  C1. Given the leaf hashes of a merkle tree with between 1 and 1024 leaves in which
  no two siblings carry the same hash, and any choice of matched leaves, \<open>run\<close> builds
  a merkle block, and CheckMerkleBlock returns for it exactly the matched leaf hashes,
  in leaf order, and no error. The root it computes is the header's merkle root, the
  root of the tree: with any other root \<open>x\<close> in the header the answer is the error that
  names the computed root and \<open>x\<close>.
\<close>

theorem partial_tree_roundtrip:
  assumes "1 \<le> length AllHashes" and "length AllHashes \<le> 1024"
    and "length MatchedBits = length AllHashes"
    and "distinct_siblings Sha256D AllHashes"
  shows "\<exists>m. run_MerkleBlock Sha256D AllHashes MatchedBits = Some m \<and>
     MerkleRoot (BlockHeader m)
       = CalcHash Sha256D AllHashes (tree_height_from (length AllHashes) 0) 0 \<and>
     CheckMerkleBlock Sha256D m
       = Some (map Some (matched_txids AllHashes MatchedBits), None) \<and>
     CheckMerkleBlock Sha256D (m\<lparr>BlockHeader := \<lparr>MerkleRoot = x\<rparr>\<rparr>)
       = Some (if MerkleRoot (BlockHeader m) = x
               then (map Some (matched_txids AllHashes MatchedBits), None)
               else ([], Some (ComputedRootMismatch (MerkleRoot (BlockHeader m)) x)))"
  using built_block_checked[OF assms(1) built_1024[OF assms(2)] assms(3,4)] .

theorem partial_tree_roundtrip_witness:
  "distinct_siblings sample_hash [replicate 32 1, replicate 32 2, replicate 32 3] \<and>
   (\<exists>m. run_MerkleBlock sample_hash [replicate 32 1, replicate 32 2, replicate 32 3]
           [True, False, True] = Some m \<and>
        MerkleRoot (BlockHeader m) = replicate 32 32 \<and>
        CheckMerkleBlock sample_hash m = Some ([Some (replicate 32 1), Some (replicate 32 3)], None) \<and>
        CheckMerkleBlock sample_hash (m\<lparr>BlockHeader := \<lparr>MerkleRoot = replicate 32 0\<rparr>\<rparr>)
          = Some ([], Some (ComputedRootMismatch (replicate 32 32) (replicate 32 0))))"
proof -
  have d: "distinct_siblings sample_hash [replicate 32 1, replicate 32 2, replicate 32 3]"
    by code_simp
  have c: "CalcHash sample_hash [replicate 32 1, replicate 32 2, replicate 32 3]
     (tree_height_from (length [replicate 32 1 :: byte list, replicate 32 2, replicate 32 3]) 0) 0
       = replicate 32 32"
    by code_simp
  have n: "replicate 32 (32 :: byte) \<noteq> replicate 32 0"
    by code_simp
  from partial_tree_roundtrip[of "[replicate 32 1, replicate 32 2, replicate 32 3]"
        "[True, False, True]" sample_hash "replicate 32 0", OF _ _ _ d]
  obtain m where m:
    "run_MerkleBlock sample_hash [replicate 32 1, replicate 32 2, replicate 32 3]
       [True, False, True] = Some m"
    "MerkleRoot (BlockHeader m) = replicate 32 32"
    "CheckMerkleBlock sample_hash m
       = Some (map Some (matched_txids [replicate 32 1, replicate 32 2, replicate 32 3]
                 [True, False, True]), None)"
    "CheckMerkleBlock sample_hash (m\<lparr>BlockHeader := \<lparr>MerkleRoot = replicate 32 0\<rparr>\<rparr>)
       = Some (if MerkleRoot (BlockHeader m) = replicate 32 0
               then (map Some (matched_txids [replicate 32 1, replicate 32 2, replicate 32 3]
                       [True, False, True]), None)
               else ([], Some (ComputedRootMismatch (MerkleRoot (BlockHeader m))
                       (replicate 32 0))))"
    unfolding c by auto
  have t: "matched_txids [replicate 32 1, replicate 32 2, replicate 32 3 :: byte list]
      [True, False, True] = [replicate 32 1, replicate 32 3]"
    by (simp add: matched_txids_def)
  show ?thesis
    using d m(1) m(2) m(3)[unfolded t] m(4)[unfolded m(2) t] n
    by (intro conjI exI[of _ m]) simp_all
qed

text \<open>
  C2 as stated fails. The tree over the leaves 1, 2, 3 has an odd row; with the last
  leaf duplicated it has four leaves and the same root. The block for the first leaf
  carries the two equal leaves as the one hash of their parent, CheckMerkleBlock never
  combines them, and it returns the first leaf and no error.
\<close>

theorem hidden_duplicate_counterexample:
  "run_MerkleBlock sample_hash
     [replicate 32 1, replicate 32 2, replicate 32 3, replicate 32 3]
     [True, False, False, False]
     = Some \<lparr>BlockHeader = \<lparr>MerkleRoot = replicate 32 32\<rparr>, Transactions = 4,
             Hashes = [Some (replicate 32 1), Some (replicate 32 2), Some (replicate 32 13)],
             Flags = [7]\<rparr> \<and>
   CheckMerkleBlock sample_hash
     \<lparr>BlockHeader = \<lparr>MerkleRoot = replicate 32 32\<rparr>, Transactions = 4,
      Hashes = [Some (replicate 32 1), Some (replicate 32 2), Some (replicate 32 13)],
      Flags = [7]\<rparr>
     = Some ([Some (replicate 32 1)], None)"
  by code_simp

text \<open>
  C2, amended. MakeMerkleParent fails with "DUP HASH CRASH" on two equal hashes that
  are not nil. So does the main loop when it combines the two top nodes of a stack of
  three or more nodes and both are filled with the same hash. So does CheckMerkleBlock
  on the block built from a tree with an even number of leaves, between 2 and 1024,
  whose last two leaves are equal, when one of the two is matched, so that the block
  carries both.
\<close>

theorem duplicate_hash_rejected:
  "MakeMerkleParent Sha256D (Some h) (Some h) = Inl DupHashCrash \<and>
   (inDeadZone pos txs = Some False \<longrightarrow>
      main_loop Sha256D root txs msb
        (s @ [a, (q, Some h), (q', Some h)], r, pos, i, hashes, flags)
        = Some (r, Some DupHashCrash)) \<and>
   (2 \<le> length AllHashes \<and> length AllHashes \<le> 1024 \<and> even (length AllHashes) \<and>
    length MatchedBits = length AllHashes \<and>
    AllHashes ! (length AllHashes - 2) = AllHashes ! (length AllHashes - 1) \<and>
    (MatchedBits ! (length AllHashes - 2) \<or> MatchedBits ! (length AllHashes - 1)) \<longrightarrow>
      (\<exists>m r'. run_MerkleBlock Sha256D AllHashes MatchedBits = Some m \<and>
         CheckMerkleBlock Sha256D m = Some (r', Some DupHashCrash)))"
proof -
  have a: "MakeMerkleParent Sha256D (Some h) (Some h) = Inl DupHashCrash"
    by (simp add: MakeMerkleParent_def)
  have b: "inDeadZone pos txs = Some False \<longrightarrow>
      main_loop Sha256D root txs msb
        (s @ [a, (q, Some h), (q', Some h)], r, pos, i, hashes, flags)
        = Some (r, Some DupHashCrash)"
    using main_loop_ret[OF loop_body_dup] by blast
  have c: "2 \<le> length AllHashes \<and> length AllHashes \<le> 1024 \<and> even (length AllHashes) \<and>
    length MatchedBits = length AllHashes \<and>
    AllHashes ! (length AllHashes - 2) = AllHashes ! (length AllHashes - 1) \<and>
    (MatchedBits ! (length AllHashes - 2) \<or> MatchedBits ! (length AllHashes - 1)) \<longrightarrow>
      (\<exists>m r'. run_MerkleBlock Sha256D AllHashes MatchedBits = Some m \<and>
         CheckMerkleBlock Sha256D m = Some (r', Some DupHashCrash))"
    using dup_rejected[of AllHashes MatchedBits Sha256D] built_1024[of AllHashes] by blast
  from a b c show ?thesis by blast
qed

theorem duplicate_hash_rejected_witness:
  "inDeadZone 1 4 = Some False \<and>
   main_loop sample_hash [] 4 4
     ([(6, None), (4, None), (0, Some [1]), (1, Some [1])], [], 1, 0, [], [0])
     = Some ([], Some DupHashCrash) \<and>
   (\<exists>m r'. run_MerkleBlock sample_hash
        [replicate 32 1, replicate 32 2, replicate 32 3, replicate 32 3]
        [False, False, True, False] = Some m \<and>
      CheckMerkleBlock sample_hash m = Some (r', Some DupHashCrash))"
proof -
  have z: "inDeadZone 1 4 = Some False" by code_simp
  show ?thesis
    using duplicate_hash_rejected[where pos = 1 and txs = 4 and Sha256D = sample_hash
        and root = "[]" and msb = 4 and s = "[(6, None)]" and a = "(4, None)" and q = 0
        and h = "[1]" and q' = 1 and r = "[]" and i = 0 and hashes = "[]" and flags = "[0]"
        and AllHashes = "[replicate 32 1, replicate 32 2, replicate 32 3, replicate 32 3]"
        and MatchedBits = "[False, False, True, False]"] z
    by simp
qed


section \<open>The unreachable test of the leaf position\<close>















end
